theory Spec2Isabelle
  imports Main "HOL-Library.Sublist" "HOL-Library.Multiset" "HOL-Library.Word"
begin

section \<open>JavaScript strings and values\<close>

text \<open>
  A JavaScript string is a sequence of UTF-16 code units. The model is \<open>string\<close>, one
  \<open>char\<close> per code unit, and so covers the strings whose code units are below 256
  (ASCII and Latin-1). On that range \<open>String.prototype.trim\<close> and the regular
  expression class \<open>\s\<close> agree on the white space below, and
  \<open>String.prototype.toLowerCase\<close> maps code unit to code unit.
\<close>

definition is_space :: "char \<Rightarrow> bool" where
  "is_space c = (c \<in> set [CHR 0x09, CHR 0x0A, CHR 0x0B, CHR 0x0C, CHR 0x0D, CHR 0x20, CHR 0xA0])"

definition trim :: "string \<Rightarrow> string" where
  "trim s = rev (dropWhile is_space (rev (dropWhile is_space s)))"

definition lower_char :: "char \<Rightarrow> char" where
  "lower_char c =
     (let n = (of_char c :: nat)
      in if (65 \<le> n \<and> n \<le> 90) \<or> (192 \<le> n \<and> n \<le> 222 \<and> n \<noteq> 215)
         then char_of (n + 32) else c)"

definition toLowerCase :: "string \<Rightarrow> string" where
  "toLowerCase s = map lower_char s"

text \<open>\<open>s.includes(q)\<close>: \<open>q\<close> occurs in \<open>s\<close> at some position.\<close>

fun includes_str :: "string \<Rightarrow> string \<Rightarrow> bool" where
  "includes_str [] q = (q = [])"
| "includes_str (c # cs) q = (prefix q (c # cs) \<or> includes_str cs q)"

text \<open>
  Numbers. An integer from \<open>-2^53\<close> to \<open>2^53 - 1\<close> is a 54-bit signed word: every such
  integer is a JavaScript number, and \<open>String(n)\<close> writes it with all its decimal digits
  and a sign. Every other number (a fraction, \<open>NaN\<close>, an infinity, a larger magnitude,
  where \<open>String\<close> rounds or switches to exponent form) is an \<open>JOther\<close> value below.
\<close>

type_synonym js_int = "54 word"

definition digit_char :: "nat \<Rightarrow> char" where
  "digit_char n = ''0123456789'' ! (n mod 10)"

fun decimal :: "nat \<Rightarrow> string" where
  "decimal n = (if n < 10 then [digit_char n] else decimal (n div 10) @ [digit_char (n mod 10)])"

declare decimal.simps [simp del]

definition String_num :: "js_int \<Rightarrow> string" where
  "String_num n =
     (if sint n < 0 then CHR ''-'' # decimal (nat (- sint n)) else decimal (nat (sint n)))"

text \<open>
  An exception: the TypeError the language raises, or what code belonging to a value (a
  \<open>toString\<close>, a getter) throws, named by a label.
\<close>

datatype js_error = TypeError | Thrown string

text \<open>
  The values a cell holds: \<open>null\<close>, \<open>undefined\<close>, a boolean, an integer as above, a
  string, or any other value (another number, a bigint, a symbol, an object, an array,
  a function). Of another value the code uses only \<open>String(value)\<close>, so it is given
  by what that conversion does: it returns a string, or it throws (a TypeError for an
  object without \<open>toString\<close> and \<open>valueOf\<close>, such as \<open>Object.create(null)\<close>, or else
  what the object's \<open>toString\<close> throws). A conversion that changes state is outside the
  model.
\<close>

datatype jsvalue =
  JNull | JUndefined | JBool bool | JNum js_int | JStr string | JOther "js_error + string"

fun String_of :: "jsvalue \<Rightarrow> js_error + string" where
  "String_of JNull = Inr ''null''"
| "String_of JUndefined = Inr ''undefined''"
| "String_of (JBool b) = Inr (if b then ''true'' else ''false'')"
| "String_of (JNum n) = Inr (String_num n)"
| "String_of (JStr s) = Inr s"
| "String_of (JOther conversion) = conversion"

text \<open>
  An element of \<open>rows\<close> is \<open>null\<close> or \<open>undefined\<close> (\<open>Nullish\<close>), or a value with
  properties: an object, or a primitive value, which reads as its wrapper object does.
  It is given by its own enumerable properties with string keys, in key order (the order
  \<open>Object.keys\<close> reports, keys distinct), and by the other properties a read finds: own
  ones that are not enumerable, then the ones inherited along the prototype chain. A
  property is given by what reading it does: \<open>Inr v\<close> for a data property of value
  \<open>v\<close> (or a getter returning \<open>v\<close>), \<open>Inl e\<close> for a getter that throws \<open>e\<close>. \<open>r[c]\<close>
  throws a TypeError on \<open>null\<close> and \<open>undefined\<close>; otherwise it finds an own property
  first, then an inherited one, and gives \<open>undefined\<close> when there is neither. Getters
  that change state, and proxies, are outside the model.
\<close>

type_synonym property = "js_error + jsvalue"

datatype jsrow =
  Nullish | Row (own: "(string \<times> property) list") (inherited: "(string \<times> property) list")

definition get_prop :: "jsrow \<Rightarrow> string \<Rightarrow> js_error + jsvalue" where
  "get_prop r k =
     (case r of
        Nullish \<Rightarrow> Inl TypeError
      | Row ps inh \<Rightarrow>
          (case map_of ps k of
             Some p \<Rightarrow> p
           | None \<Rightarrow> (case map_of inh k of Some p \<Rightarrow> p | None \<Rightarrow> Inr JUndefined)))"

text \<open>
  What an object written as a literal inherits from \<open>Object.prototype\<close>. The members
  are functions, whose string is their source text, and the accessor \<open>__proto__\<close>,
  which reads as \<open>Object.prototype\<close> itself. The literal's own properties are data
  properties.
\<close>

definition native :: "string \<Rightarrow> property" where
  "native f = Inr (JOther (Inr (''function '' @ f @ ''() { [native code] }'')))"

definition Object_prototype :: "(string \<times> property) list" where
  "Object_prototype =
     [(''constructor'', native ''Object''),
      (''toString'', native ''toString''),
      (''toLocaleString'', native ''toLocaleString''),
      (''valueOf'', native ''valueOf''),
      (''hasOwnProperty'', native ''hasOwnProperty''),
      (''isPrototypeOf'', native ''isPrototypeOf''),
      (''propertyIsEnumerable'', native ''propertyIsEnumerable''),
      (''__defineGetter__'', native ''__defineGetter__''),
      (''__defineSetter__'', native ''__defineSetter__''),
      (''__lookupGetter__'', native ''__lookupGetter__''),
      (''__lookupSetter__'', native ''__lookupSetter__''),
      (''__proto__'', Inr (JOther (Inr ''[object Object]'')))]"

definition object_literal :: "(string \<times> jsvalue) list \<Rightarrow> jsrow" where
  "object_literal ps = Row (map (\<lambda>(k, v). (k, Inr v)) ps) Object_prototype"

text \<open>\<open>Array.prototype.join\<close> on an array of strings.\<close>

fun join :: "string list \<Rightarrow> string \<Rightarrow> string" where
  "join [] sep = []"
| "join [x] sep = x"
| "join (x # y # ys) sep = x @ sep @ join (y # ys) sep"

text \<open>
  \<open>Array.prototype.map\<close> with a callback that may throw: the elements are visited from
  the left, and the first exception ends the call.
\<close>

fun map_result :: "('a \<Rightarrow> js_error + 'b) \<Rightarrow> 'a list \<Rightarrow> js_error + 'b list" where
  "map_result f [] = Inr []"
| "map_result f (x # xs) =
     (case f x of
        Inl e \<Rightarrow> Inl e
      | Inr y \<Rightarrow> (case map_result f xs of Inl e \<Rightarrow> Inl e | Inr ys \<Rightarrow> Inr (y # ys)))"

section \<open>CSV helpers\<close>

definition CR :: char where "CR = CHR 0x0D"
definition LF :: char where "LF = CHR 0x0A"
definition CRLF :: string where "CRLF = [CR, LF]"

text \<open>The test \<open>/[",\n\r]|^\s|\s$/.test(str)\<close>: no \<open>m\<close> flag, so \<open>^\<close> and \<open>$\<close> are the ends of the string.\<close>

definition needsQuotes :: "string \<Rightarrow> bool" where
  "needsQuotes str =
     (list_ex (\<lambda>c. c \<in> set [CHR ''\"'', CHR '','', LF, CR]) str
      \<or> (case str of [] \<Rightarrow> False | c # _ \<Rightarrow> is_space c)
      \<or> (case rev str of [] \<Rightarrow> False | c # _ \<Rightarrow> is_space c))"

text \<open>\<open>str.replace(/"/g, '""')\<close>.\<close>

fun replace_quotes :: "string \<Rightarrow> string" where
  "replace_quotes [] = []"
| "replace_quotes (c # cs) = (if c = CHR ''\"'' then [CHR ''\"'', CHR ''\"''] else [c]) @ replace_quotes cs"

definition escapeCSVValue :: "jsvalue \<Rightarrow> js_error + string" where
  "escapeCSVValue v =
     (if v = JNull \<or> v = JUndefined then Inr []
      else
        case String_of v of
          Inl e \<Rightarrow> Inl e
        | Inr str \<Rightarrow>
            let needs = needsQuotes str;
                escaped = replace_quotes str
            in Inr (if needs then [CHR ''\"''] @ escaped @ [CHR ''\"''] else escaped))"

text \<open>
  \<open>rows[i]\<close> is \<open>undefined\<close> past the end of the array, and \<open>Object.keys\<close> throws a
  TypeError on \<open>null\<close> and \<open>undefined\<close>.
\<close>

definition array_get :: "jsrow list \<Rightarrow> nat \<Rightarrow> jsrow" where
  "array_get xs i = (if i < length xs then xs ! i else Nullish)"

definition Object_keys :: "jsrow \<Rightarrow> js_error + string list" where
  "Object_keys r = (case r of Nullish \<Rightarrow> Inl TypeError | Row ps inh \<Rightarrow> Inr (map fst ps))"

text \<open>
  The column list of \<open>toCSV\<close>:
  \<open>columns && columns.length ? columns : rows.length ? Object.keys(rows[0]) : []\<close>.
  The argument \<open>columns\<close> may be missing (\<open>None\<close>).
\<close>

definition resolve_cols :: "jsrow list \<Rightarrow> string list option \<Rightarrow> js_error + string list" where
  "resolve_cols rows columns =
     (if (case columns of None \<Rightarrow> False | Some cs \<Rightarrow> length cs \<noteq> 0)
      then Inr (the columns)
      else if length rows \<noteq> 0 then Object_keys (array_get rows 0) else Inr [])"

text \<open>The cell \<open>escapeCSVValue(r[c])\<close> and the line \<open>cols.map(...).join(",")\<close> of a row.\<close>

definition cell :: "jsrow \<Rightarrow> string \<Rightarrow> js_error + string" where
  "cell r c = (case get_prop r c of Inl e \<Rightarrow> Inl e | Inr v \<Rightarrow> escapeCSVValue v)"

definition row_line :: "string list \<Rightarrow> jsrow \<Rightarrow> js_error + string" where
  "row_line cols r =
     (case map_result (cell r) cols of Inl e \<Rightarrow> Inl e | Inr cells \<Rightarrow> Inr (join cells '',''))"

definition toCSV :: "jsrow list \<Rightarrow> string list option \<Rightarrow> js_error + string" where
  "toCSV rows columns =
     (case resolve_cols rows columns of
        Inl e \<Rightarrow> Inl e
      | Inr cols \<Rightarrow>
          let header = join cols '',''
          in case map_result (row_line cols) rows of
               Inl e \<Rightarrow> Inl e
             | Inr lines \<Rightarrow> Inr (join (header # lines) CRLF))"

section \<open>The mocked search\<close>

record Record =
  id' :: int
  name :: string
  category :: string
  score :: int

definition MOCK_DATA :: "Record list" where
  "MOCK_DATA =
    [\<lparr>id' = 1, name = ''Acme Analytics Suite'', category = ''Analytics'', score = 92\<rparr>,
     \<lparr>id' = 2, name = ''Beacon Billing'', category = ''FinTech'', score = 84\<rparr>,
     \<lparr>id' = 3, name = ''Cinder CRM'', category = ''Sales'', score = 88\<rparr>,
     \<lparr>id' = 4, name = ''Delta Docs'', category = ''Docs'', score = 77\<rparr>,
     \<lparr>id' = 5, name = ''Echo ETL'', category = ''Data'', score = 81\<rparr>,
     \<lparr>id' = 6, name = ''Flux Forecast'', category = ''Analytics'', score = 90\<rparr>,
     \<lparr>id' = 7, name = ''Glint Gateway'', category = ''FinTech'', score = 73\<rparr>,
     \<lparr>id' = 8, name = ''Helio Helpdesk'', category = ''Support'', score = 85\<rparr>,
     \<lparr>id' = 9, name = ''Iota Insights'', category = ''Analytics'', score = 89\<rparr>,
     \<lparr>id' = 10, name = ''Jolt Jira Sync'', category = ''DevTools'', score = 80\<rparr>]"

record QueryResult =
  items :: "Record list"
  explanation :: string
  tips :: "string list"

text \<open>
  \<open>Array.prototype.sort\<close> sorts the array it is called on in place, and
  \<open>Array.prototype.filter\<close> returns a new array. Whether a search can change
  \<open>MOCK_DATA\<close> therefore depends on which array is sorted, and the model keeps the
  arrays in a store: an array reference is an index into the store, reference
  \<open>MOCK_DATA_ref\<close> is the module's constant, and a new array is allocated at the end.
\<close>

type_synonym store = "Record list list"

definition MOCK_DATA_ref :: nat where
  "MOCK_DATA_ref = 0"

definition initial_store :: store where
  "initial_store = [MOCK_DATA]"

definition array_filter :: "(Record \<Rightarrow> bool) \<Rightarrow> nat \<Rightarrow> store \<Rightarrow> nat \<times> store" where
  "array_filter p a st = (length st, st @ [filter p (st ! a)])"

text \<open>
  The sort is stable (ECMAScript 2019): with a comparator \<open>cmp\<close>, an element stays
  before the elements it does not compare greater than. \<open>insert_cmp\<close> puts an element
  in front of a sorted array that held the elements after it.
\<close>

fun insert_cmp :: "('a \<Rightarrow> 'a \<Rightarrow> int) \<Rightarrow> 'a \<Rightarrow> 'a list \<Rightarrow> 'a list" where
  "insert_cmp cmp x [] = [x]"
| "insert_cmp cmp x (y # ys) = (if cmp x y \<le> 0 then x # y # ys else y # insert_cmp cmp x ys)"

definition sort_cmp :: "('a \<Rightarrow> 'a \<Rightarrow> int) \<Rightarrow> 'a list \<Rightarrow> 'a list" where
  "sort_cmp cmp xs = foldr (insert_cmp cmp) xs []"

definition array_sort :: "(Record \<Rightarrow> Record \<Rightarrow> int) \<Rightarrow> nat \<Rightarrow> store \<Rightarrow> nat \<times> store" where
  "array_sort cmp a st = (a, st[a := sort_cmp cmp (st ! a)])"

definition normalized :: "string \<Rightarrow> string" where
  "normalized query = toLowerCase (trim query)"

definition matches :: "string \<Rightarrow> Record \<Rightarrow> bool" where
  "matches q r = (includes_str (toLowerCase (name r)) q \<or> includes_str (toLowerCase (category r)) q)"

text \<open>
  The explanation and the tips of the general path. \<open>n\<close> is \<open>items.length\<close>, which is
  below \<open>2^32\<close> for every array.
\<close>

definition general_explanation :: "nat \<Rightarrow> string \<Rightarrow> string" where
  "general_explanation n query =
     ''Showing '' @ String_num (of_nat n) @ '' result(s) for \"'' @ query @
     ''\". This mocked search filters by name/category and sorts by mocked \"score\" (desc).''"

definition general_tips :: "string \<Rightarrow> string list" where
  "general_tips query =
     [''Filter: name/category contains \"'' @ query @ ''\" (case-insensitive).'',
      ''Sort: score descending.'',
      ''To go real, replace mockSearch() with an API call.'']"

definition mockSearch :: "string \<Rightarrow> store \<Rightarrow> QueryResult \<times> store" where
  "mockSearch query st =
     (let q = normalized query
      in if q = [] then
           (\<lparr>items = [],
             explanation = ''Type a query and press Search. Results are mocked for demo.'',
             tips = [''Filtering matches on name or category (case-insensitive).'']\<rparr>, st)
         else
           let (kept, st1) = array_filter (matches q) MOCK_DATA_ref st;
               (sorted_ref, st2) = array_sort (\<lambda>a b. score b - score a) kept st1;
               its = st2 ! sorted_ref
           in (\<lparr>items = its,
                explanation = general_explanation (length its) query,
                tips = general_tips query\<rparr>, st2))"

text \<open>
  The call \<open>mockSearch(query)\<close> where the argument may be missing: \<open>query.trim()\<close>
  throws a TypeError on \<open>undefined\<close> and \<open>null\<close>. It is the only operation of the
  search that can throw: \<open>MOCK_DATA\<close> holds records whose \<open>name\<close> and \<open>category\<close>
  are strings.
\<close>

definition mockSearch_call :: "string option \<Rightarrow> store \<Rightarrow> js_error + QueryResult \<times> store" where
  "mockSearch_call query st =
     (case query of None \<Rightarrow> Inl TypeError | Some q \<Rightarrow> Inr (mockSearch q st))"

section \<open>Export file names\<close>






section \<open>The arrays of toCSV\<close>

text \<open>
  \<open>toCSV\<close> assigns to no variable it did not declare and calls no method that changes
  an array: \<open>map\<close>, \<open>join\<close>, \<open>Object.keys\<close> and the array literal build new values.
  To state that, the function is written once more over a store of arrays: an array
  reference is an index into the store, \<open>rows\<close> refers to an array of rows, \<open>columns\<close> (when
  given) to an array of strings, and every array the function builds is allocated at the
  end of the store. (The order in which the new arrays are allocated is immaterial.)
\<close>

record csv_store =
  row_arrays :: "jsrow list list"
  string_arrays :: "string list list"

definition new_strings :: "string list \<Rightarrow> csv_store \<Rightarrow> nat \<times> csv_store" where
  "new_strings xs st = (length (string_arrays st), st\<lparr>string_arrays := string_arrays st @ [xs]\<rparr>)"

text \<open>\<open>cols.map((c) => escapeCSVValue(r[c])).join(",")\<close>: \<open>map\<close> allocates the array of cells.\<close>

definition row_line_st :: "nat \<Rightarrow> jsrow \<Rightarrow> csv_store \<Rightarrow> (js_error + string) \<times> csv_store" where
  "row_line_st cols r st =
     (case map_result (cell r) (string_arrays st ! cols) of
        Inl e \<Rightarrow> (Inl e, st)
      | Inr cells \<Rightarrow>
          let (cells_ref, st1) = new_strings cells st
          in (Inr (join (string_arrays st1 ! cells_ref) '',''), st1))"

fun lines_st :: "nat \<Rightarrow> jsrow list \<Rightarrow> csv_store \<Rightarrow> (js_error + string list) \<times> csv_store" where
  "lines_st cols [] st = (Inr [], st)"
| "lines_st cols (r # rs) st =
     (case row_line_st cols r st of
        (Inl e, st1) \<Rightarrow> (Inl e, st1)
      | (Inr l, st1) \<Rightarrow>
          (case lines_st cols rs st1 of
             (Inl e, st2) \<Rightarrow> (Inl e, st2)
           | (Inr ls, st2) \<Rightarrow> (Inr (l # ls), st2)))"

definition resolve_cols_st :: "nat \<Rightarrow> nat option \<Rightarrow> csv_store \<Rightarrow> (js_error + nat) \<times> csv_store" where
  "resolve_cols_st rows columns st =
     (if (case columns of None \<Rightarrow> False | Some a \<Rightarrow> length (string_arrays st ! a) \<noteq> 0)
      then (Inr (the columns), st)
      else if length (row_arrays st ! rows) \<noteq> 0
        then (case Object_keys (array_get (row_arrays st ! rows) 0) of
                Inl e \<Rightarrow> (Inl e, st)
              | Inr ks \<Rightarrow> let (a, st1) = new_strings ks st in (Inr a, st1))
        else let (a, st1) = new_strings [] st in (Inr a, st1))"

definition toCSV_st :: "nat \<Rightarrow> nat option \<Rightarrow> csv_store \<Rightarrow> (js_error + string) \<times> csv_store" where
  "toCSV_st rows columns st =
     (case resolve_cols_st rows columns st of
        (Inl e, st1) \<Rightarrow> (Inl e, st1)
      | (Inr cols, st1) \<Rightarrow>
          let header = join (string_arrays st1 ! cols) '',''
          in (case lines_st cols (row_arrays st1 ! rows) st1 of
                (Inl e, st2) \<Rightarrow> (Inl e, st2)
              | (Inr ls, st2) \<Rightarrow>
                  let (lines_ref, st3) = new_strings ls st2;
                      (all_ref, st4) = new_strings (header # string_arrays st3 ! lines_ref) st3
                  in (Inr (join (string_arrays st4 ! all_ref) CRLF), st4)))"

text \<open>
  A later store keeps an earlier one when it has the same arrays of rows and its arrays of
  strings begin with those of the earlier store, unchanged.
\<close>

definition keeps :: "csv_store \<Rightarrow> csv_store \<Rightarrow> bool" where
  "keeps st st' \<longleftrightarrow>
     row_arrays st' = row_arrays st
     \<and> take (length (string_arrays st)) (string_arrays st') = string_arrays st"

section \<open>The specification's vocabulary\<close>

text \<open>
  The quoting rule as the specification words it: a value needs quoting if it contains a
  double-quote, a comma, a carriage return, a line feed, or has leading or trailing
  white space; escaping doubles every double-quote.
\<close>

definition needs_quoting :: "string \<Rightarrow> bool" where
  "needs_quoting s =
     (CHR ''\"'' \<in> set s \<or> CHR '','' \<in> set s \<or> CR \<in> set s \<or> LF \<in> set s
      \<or> (s \<noteq> [] \<and> (is_space (hd s) \<or> is_space (last s))))"

definition double_quotes :: "string \<Rightarrow> string" where
  "double_quotes s = concat (map (\<lambda>c. if c = CHR ''\"'' then ''\"\"'' else [c]) s)"

definition quoted_if_needed :: "string \<Rightarrow> string" where
  "quoted_if_needed s = (if needs_quoting s then ''\"'' @ double_quotes s @ ''\"'' else s)"

text \<open>The number that a string of decimal digits writes.\<close>

definition is_digit :: "char \<Rightarrow> bool" where
  "is_digit c = (c \<in> set ''0123456789'')"

definition digit_of :: "char \<Rightarrow> nat" where
  "digit_of c = length (takeWhile (\<lambda>d. d \<noteq> c) ''0123456789'')"

definition digits_value :: "string \<Rightarrow> nat" where
  "digits_value ds = foldl (\<lambda>a c. 10 * a + digit_of c) 0 ds"

text \<open>
  The matching records in descending order of score, by the library's stable insertion
  sort on the negated score.
\<close>

definition ranked :: "string \<Rightarrow> Record list \<Rightarrow> Record list" where
  "ranked q records = sort_key (\<lambda>r. - score r) (filter (matches q) records)"

text \<open>
  The column list as the specification words it: the \<open>columns\<close> argument when it is not
  empty, else the keys of the first row in their order, else no column.
\<close>

definition spec_cols :: "jsrow list \<Rightarrow> string list option \<Rightarrow> string list" where
  "spec_cols rows columns =
     (case columns of
        Some (c # cs) \<Rightarrow> c # cs
      | _ \<Rightarrow> (case rows of Row ps inh # _ \<Rightarrow> map fst ps | _ \<Rightarrow> []))"

definition given :: "string list option \<Rightarrow> bool" where
  "given columns = (case columns of Some (c # cs) \<Rightarrow> True | _ \<Rightarrow> False)"

text \<open>
  Strings put one after the other with a separator between neighbours, written with
  the list functions of the library.
\<close>

definition sep_by :: "string \<Rightarrow> string list \<Rightarrow> string" where
  "sep_by sep xs = (case xs of [] \<Rightarrow> [] | x # rest \<Rightarrow> x @ concat (map (\<lambda>y. sep @ y) rest))"




text \<open>
  Reading the output back, for the round trip: \<open>String.prototype.split\<close> with a
  separator string. \<open>cut_at sep s\<close> finds the first occurrence of \<open>sep\<close> in \<open>s\<close> and
  gives the text before it and the text after it.
\<close>

fun cut_at :: "string \<Rightarrow> string \<Rightarrow> (string \<times> string) option" where
  "cut_at sep [] = None"
| "cut_at sep (c # cs) =
     (if prefix sep (c # cs) then Some ([], drop (length sep) (c # cs))
      else map_option (\<lambda>(before, after). (c # before, after)) (cut_at sep cs))"

lemma cut_at_shorter: "cut_at sep s = Some (b, a) \<Longrightarrow> sep \<noteq> [] \<Longrightarrow> length a < length s"
proof (induction s arbitrary: b)
  case Nil
  then show ?case by simp
next
  case (Cons c cs)
  show ?case
  proof (cases "prefix sep (c # cs)")
    case True
    with Cons.prems show ?thesis by (cases sep) auto
  next
    case False
    with Cons.prems obtain b' where "cut_at sep cs = Some (b', a)"
      by (auto split: prod.splits)
    with Cons.IH Cons.prems(2) show ?thesis by fastforce
  qed
qed

function split :: "string \<Rightarrow> string \<Rightarrow> string list" where
  "split s sep =
     (if sep = [] then map (\<lambda>c. [c]) s
      else case cut_at sep s of
             None \<Rightarrow> [s]
           | Some (before, after) \<Rightarrow> before # split after sep)"
  by pat_completeness auto
termination
  by (relation "measure (\<lambda>(s, sep). length s)") (auto dest: cut_at_shorter)

declare split.simps [simp del]

text \<open>
  A plain string needs no quoting. The string of a cell, before escaping: empty for
  \<open>null\<close> and \<open>undefined\<close>, the value's string otherwise (and empty where the read or
  the conversion throws).
\<close>

definition plain :: "string \<Rightarrow> bool" where
  "plain s = (\<not> needs_quoting s)"

definition cell_string :: "jsrow \<Rightarrow> string \<Rightarrow> string" where
  "cell_string r c =
     (case get_prop r c of
        Inl e \<Rightarrow> []
      | Inr v \<Rightarrow>
          if v = JNull \<or> v = JUndefined then []
          else (case String_of v of Inl e \<Rightarrow> [] | Inr s \<Rightarrow> s))"

text \<open>The letters and digits of ASCII.\<close>

definition is_alnum :: "char \<Rightarrow> bool" where
  "is_alnum c = (c \<in> set ''ABCDEFGHIJKLMNOPQRSTUVWXYZabcdefghijklmnopqrstuvwxyz0123456789'')"

text \<open>
  A cell can be written when reading the property returns a value, and the value is not
  one whose conversion to a string throws.
\<close>

definition writable :: "property \<Rightarrow> bool" where
  "writable p =
     (case p of
        Inl e \<Rightarrow> False
      | Inr v \<Rightarrow> (case v of JOther (Inl e) \<Rightarrow> False | _ \<Rightarrow> True))"

section \<open>Escaping a value\<close>

lemma case_hd:
  "(case s of [] \<Rightarrow> False | c # _ \<Rightarrow> P c) = (s \<noteq> [] \<and> P (hd s))"
  by (cases s) simp_all

lemma needsQuotes_iff: "needsQuotes s = needs_quoting s"
proof -
  have "list_ex (\<lambda>c. c \<in> set [CHR ''\"'', CHR '','', LF, CR]) s
        = (CHR ''\"'' \<in> set s \<or> CHR '','' \<in> set s \<or> CR \<in> set s \<or> LF \<in> set s)"
    by (auto simp: list_ex_iff)
  then show ?thesis
    unfolding needsQuotes_def needs_quoting_def case_hd by (auto simp: hd_rev)
qed

lemma replace_quotes_eq: "replace_quotes s = double_quotes s"
  by (induction s) (simp_all add: double_quotes_def)

lemma double_quotes_plain: "CHR ''\"'' \<notin> set s \<Longrightarrow> double_quotes s = s"
  by (induction s) (auto simp: double_quotes_def)

lemma quoted_if_needed_eq:
  "(if needsQuotes s then [CHR ''\"''] @ replace_quotes s @ [CHR ''\"''] else replace_quotes s)
     = quoted_if_needed s"
  by (simp add: quoted_if_needed_def needsQuotes_iff replace_quotes_eq)
    (simp add: needs_quoting_def double_quotes_plain)

lemma escapeCSVValue_cases:
  "escapeCSVValue v =
     (if v = JNull \<or> v = JUndefined then Inr []
      else case String_of v of Inl e \<Rightarrow> Inl e | Inr s \<Rightarrow> Inr (quoted_if_needed s))"
  by (simp add: escapeCSVValue_def Let_def quoted_if_needed_eq split: sum.splits)

subsection \<open>The digits of a number\<close>



lemma digit_char_cases: "list_all (\<lambda>k. digit_of (digit_char k) = k \<and> is_digit (digit_char k)) [0..<10]"
  by code_simp

lemma digit_char_value: "digit_of (digit_char n) = n mod 10" and digit_char_digit: "is_digit (digit_char n)"
proof -
  have "n mod 10 \<in> set [0..<10]" by simp
  with digit_char_cases
  have "digit_of (digit_char (n mod 10)) = n mod 10 \<and> is_digit (digit_char (n mod 10))"
    unfolding list_all_iff by blast
  then show "digit_of (digit_char n) = n mod 10" and "is_digit (digit_char n)"
    by (simp_all add: digit_char_def)
qed

lemma digits_value_snoc: "digits_value (ds @ [c]) = 10 * digits_value ds + digit_of c"
  by (simp add: digits_value_def)

lemma decimal_value: "digits_value (decimal n) = n"
proof (induction n rule: decimal.induct)
  case (1 n)
  show ?case
  proof (cases "n < 10")
    case True
    then show ?thesis
      by (subst decimal.simps) (simp add: digits_value_def digit_char_value)
  next
    case False
    with 1 have "digits_value (decimal (n div 10)) = n div 10" by simp
    with False show ?thesis
      by (subst decimal.simps) (simp add: digits_value_snoc digit_char_value)
  qed
qed

lemma decimal_digits: "list_all is_digit (decimal n)"
proof (induction n rule: decimal.induct)
  case (1 n)
  then show ?case
    by (subst decimal.simps) (simp add: digit_char_digit)
qed

lemma decimal_nonempty: "decimal n \<noteq> []"
  by (subst decimal.simps) simp

lemma digit_char_zero: "digit_char n = CHR ''0'' \<longleftrightarrow> n mod 10 = 0"
proof -
  have "digit_of (digit_char n) = n mod 10" by (rule digit_char_value)
  moreover have "digit_of (CHR ''0'') = 0" by (simp add: digit_of_def)
  moreover have "digit_char n = CHR ''0''" if "n mod 10 = 0"
    using that by (simp add: digit_char_def)
  ultimately show ?thesis by metis
qed

lemma decimal_no_leading_zero: "hd (decimal n) = CHR ''0'' \<Longrightarrow> decimal n = ''0''"
proof (induction n rule: decimal.induct)
  case (1 n)
  show ?case
  proof (cases "n < 10")
    case True
    with "1.prems" have "n = 0"
      by (simp add: decimal.simps [of n] digit_char_zero)
    then show ?thesis
      by (simp add: decimal.simps [of 0] digit_char_def)
  next
    case False
    with "1.prems" have "hd (decimal (n div 10)) = CHR ''0''"
      by (simp add: decimal.simps [of n] decimal_nonempty)
    with 1 False have "decimal (n div 10) = ''0''" by simp
    then have "digits_value (decimal (n div 10)) = 0"
      by (simp add: digits_value_def digit_of_def)
    then have "n div 10 = 0" by (simp add: decimal_value)
    with False show ?thesis by simp
  qed
qed

lemma is_digit_plain_chars:
  "is_digit c \<Longrightarrow> c \<noteq> CHR ''\"'' \<and> c \<noteq> CHR '','' \<and> c \<noteq> CR \<and> c \<noteq> LF \<and> \<not> is_space c"
  by (auto simp: is_digit_def CR_def LF_def is_space_def)

lemma digits_plain: "list_all is_digit ds \<Longrightarrow> \<not> needs_quoting ds \<and> \<not> needs_quoting (CHR ''-'' # ds)"
proof -
  assume digits: "list_all is_digit ds"
  have each: "c \<noteq> CHR ''\"'' \<and> c \<noteq> CHR '','' \<and> c \<noteq> CR \<and> c \<noteq> LF \<and> \<not> is_space c"
    if "c \<in> set (CHR ''-'' # ds)" for c
  proof (cases "c = CHR ''-''")
    case True
    then show ?thesis by (simp add: CR_def LF_def is_space_def)
  next
    case False
    with that digits have "is_digit c" by (simp add: list_all_iff)
    then show ?thesis by (rule is_digit_plain_chars)
  qed
  have minus: "\<not> needs_quoting (CHR ''-'' # ds)"
    unfolding needs_quoting_def
    using each [of "hd (CHR ''-'' # ds)"] each [of "last (CHR ''-'' # ds)"] each
    by (metis hd_in_set last_in_set)
  have "\<not> needs_quoting ds"
  proof (cases "ds = []")
    case True
    then show ?thesis by (simp add: needs_quoting_def)
  next
    case False
    then have "hd ds \<in> set (CHR ''-'' # ds)" "last ds \<in> set (CHR ''-'' # ds)" by simp_all
    with each have "\<not> is_space (hd ds)" "\<not> is_space (last ds)" by blast+
    moreover have "CHR ''\"'' \<notin> set ds \<and> CHR '','' \<notin> set ds \<and> CR \<notin> set ds \<and> LF \<notin> set ds"
      using each by (metis list.set_intros(2))
    ultimately show ?thesis by (simp add: needs_quoting_def)
  qed
  with minus show ?thesis by simp
qed

lemma escapeCSVValue_num:
  "\<exists>ds. escapeCSVValue (JNum n) = Inr (if sint n < 0 then CHR ''-'' # ds else ds)
        \<and> list_all is_digit ds \<and> int (digits_value ds) = \<bar>sint n\<bar>
        \<and> (hd ds = CHR ''0'' \<longrightarrow> ds = ''0'')"
proof -
  define m where "m = nat \<bar>sint n\<bar>"
  have plain: "\<not> needs_quoting (decimal m)" "\<not> needs_quoting (CHR ''-'' # decimal m)"
    using digits_plain [OF decimal_digits [of m]] by simp_all
  have str: "String_num n = (if sint n < 0 then CHR ''-'' # decimal m else decimal m)"
    by (cases "sint n < 0") (simp_all add: String_num_def m_def)
  have "quoted_if_needed (String_num n) = String_num n"
    using plain by (cases "sint n < 0") (simp_all add: str quoted_if_needed_def)
  then have "escapeCSVValue (JNum n) = Inr (if sint n < 0 then CHR ''-'' # decimal m else decimal m)"
    by (simp add: escapeCSVValue_cases) (simp add: str)
  moreover have "int (digits_value (decimal m)) = \<bar>sint n\<bar>"
    by (simp add: decimal_value m_def)
  moreover have "hd (decimal m) = CHR ''0'' \<longrightarrow> decimal m = ''0''"
    using decimal_no_leading_zero by blast
  ultimately show ?thesis
    using decimal_digits by blast
qed

lemma cell_absent:
  "k \<notin> fst ` set ps \<Longrightarrow> k \<notin> fst ` set inh \<Longrightarrow> cell (Row ps inh) k = Inr []"
  by (simp add: cell_def get_prop_def map_of_eq_None_iff [THEN iffD2] escapeCSVValue_def)

text \<open>
  C3, as stated, fails for a key the row does not have itself but inherits: a row written
  as an object literal has no key \<open>constructor\<close>, and under the column \<open>constructor\<close> its
  cell is the text of the function \<open>Object\<close>, not the empty string.
\<close>

theorem escapeCSVValue_inherited_key:
  "''constructor'' \<notin> fst ` set [(''id'', JNum 1)]
   \<and> cell (object_literal [(''id'', JNum 1)]) ''constructor''
       = Inr ''function Object() { [native code] }''
   \<and> toCSV [object_literal [(''id'', JNum 1)]] (Some [''id'', ''constructor''])
       = Inr (''id,constructor'' @ CRLF @ ''1,function Object() { [native code] }'')"
  by code_simp

text \<open>
  C3, amended. \<open>null\<close> and \<open>undefined\<close> give the empty string, and so does a key that is
  found neither among the row's own properties nor among the ones it inherits. A string
  is wrapped in double quotes, with every double-quote in it doubled, exactly when it
  needs quoting in the specification's sense, and is emitted unchanged otherwise; any
  other value is treated as its string is: \<open>true\<close> or \<open>false\<close> for a boolean, the decimal
  digits (no leading zero) behind a minus sign where negative for an integer, and for
  another value the string its conversion returns. A value whose conversion throws makes
  the escaper throw the same. The cell \<open>Acme, Inc.\<close> gives \<open>"Acme, Inc."\<close> and the cell
  \<open>Say "hi"\<close> gives \<open>"Say ""hi"""\<close>.
\<close>

theorem escapeCSVValue_spec:
  "escapeCSVValue JNull = Inr [] \<and> escapeCSVValue JUndefined = Inr []
   \<and> (k \<notin> fst ` set ps \<and> k \<notin> fst ` set inh \<longrightarrow> cell (Row ps inh) k = Inr [])
   \<and> escapeCSVValue (JStr s)
       = Inr (if needs_quoting s then ''\"'' @ double_quotes s @ ''\"'' else s)
   \<and> escapeCSVValue (JOther (Inr s))
       = Inr (if needs_quoting s then ''\"'' @ double_quotes s @ ''\"'' else s)
   \<and> escapeCSVValue (JOther (Inl e)) = Inl e
   \<and> escapeCSVValue (JBool True) = Inr ''true'' \<and> escapeCSVValue (JBool False) = Inr ''false''
   \<and> (\<exists>ds. escapeCSVValue (JNum n) = Inr (if sint n < 0 then CHR ''-'' # ds else ds)
          \<and> list_all is_digit ds \<and> int (digits_value ds) = \<bar>sint n\<bar>
          \<and> (hd ds = CHR ''0'' \<longrightarrow> ds = ''0''))
   \<and> escapeCSVValue (JStr ''Acme, Inc.'') = Inr ''\"Acme, Inc.\"''
   \<and> escapeCSVValue (JStr ''Say \"hi\"'') = Inr ''\"Say \"\"hi\"\"\"''
   \<and> escapeCSVValue (JNum 92) = Inr ''92'' \<and> escapeCSVValue (JNum (- 5)) = Inr ''-5''"
proof -
  have nullish: "escapeCSVValue JNull = Inr [] \<and> escapeCSVValue JUndefined = Inr []"
    by (simp add: escapeCSVValue_def)
  have absent: "k \<notin> fst ` set ps \<and> k \<notin> fst ` set inh \<longrightarrow> cell (Row ps inh) k = Inr []"
    by (simp add: cell_absent)
  have str: "escapeCSVValue (JStr s)
       = Inr (if needs_quoting s then ''\"'' @ double_quotes s @ ''\"'' else s)"
    by (simp add: escapeCSVValue_cases quoted_if_needed_def)
  have other: "escapeCSVValue (JOther (Inr s))
       = Inr (if needs_quoting s then ''\"'' @ double_quotes s @ ''\"'' else s)"
    by (simp add: escapeCSVValue_cases quoted_if_needed_def)
  have throws: "escapeCSVValue (JOther (Inl e)) = Inl e"
    by (simp add: escapeCSVValue_cases)
  have bools: "escapeCSVValue (JBool True) = Inr ''true'' \<and> escapeCSVValue (JBool False) = Inr ''false''"
    by code_simp
  have num: "\<exists>ds. escapeCSVValue (JNum n) = Inr (if sint n < 0 then CHR ''-'' # ds else ds)
          \<and> list_all is_digit ds \<and> int (digits_value ds) = \<bar>sint n\<bar>
          \<and> (hd ds = CHR ''0'' \<longrightarrow> ds = ''0'')"
    by (rule escapeCSVValue_num)
  have acme: "escapeCSVValue (JStr ''Acme, Inc.'') = Inr ''\"Acme, Inc.\"''"
    by (simp add: escapeCSVValue_def needsQuotes_def)
  have say: "escapeCSVValue (JStr ''Say \"hi\"'') = Inr ''\"Say \"\"hi\"\"\"''"
    by (simp add: escapeCSVValue_def needsQuotes_def)
  have nums: "escapeCSVValue (JNum 92) = Inr ''92'' \<and> escapeCSVValue (JNum (- 5)) = Inr ''-5''"
    by code_simp
  from nullish absent str other throws bools num acme say nums show ?thesis
    by (intro conjI) (elim conjE, assumption)+
qed

theorem escapeCSVValue_spec_witness:
  "''score'' \<notin> fst ` set [(''id'', Inr (JNum 1) :: property), (''name'', Inr (JStr ''Acme''))]
   \<and> ''score'' \<notin> fst ` set Object_prototype
   \<and> cell (Row [(''id'', Inr (JNum 1)), (''name'', Inr (JStr ''Acme''))] Object_prototype) ''score'' = Inr []
   \<and> escapeCSVValue (JStr '' a'') = Inr ''\" a\"''"
proof -
  have own_absent: "''score'' \<notin> fst ` set [(''id'', Inr (JNum 1) :: property), (''name'', Inr (JStr ''Acme''))]"
    by simp
  have inh_absent: "''score'' \<notin> fst ` set Object_prototype"
    by (simp add: Object_prototype_def)
  note t = escapeCSVValue_spec [where s = "'' a''" and k = "''score''"
      and ps = "[(''id'', Inr (JNum 1)), (''name'', Inr (JStr ''Acme''))]" and inh = Object_prototype and n = 0 and e = TypeError]
  from t have "''score'' \<notin> fst ` set [(''id'', Inr (JNum 1) :: property), (''name'', Inr (JStr ''Acme''))]
        \<and> ''score'' \<notin> fst ` set Object_prototype
      \<longrightarrow> cell (Row [(''id'', Inr (JNum 1)), (''name'', Inr (JStr ''Acme''))] Object_prototype) ''score'' = Inr []"
    by (elim conjE)
  with own_absent inh_absent
  have empty: "cell (Row [(''id'', Inr (JNum 1)), (''name'', Inr (JStr ''Acme''))] Object_prototype) ''score'' = Inr []"
    by blast
  from t have "escapeCSVValue (JStr '' a'')
       = Inr (if needs_quoting '' a'' then ''\"'' @ double_quotes '' a'' @ ''\"'' else '' a'')"
    by (elim conjE)
  then have quoted: "escapeCSVValue (JStr '' a'') = Inr ''\" a\"''"
    by (simp add: needs_quoting_def is_space_def double_quotes_def)
  from own_absent inh_absent empty quoted show ?thesis by (intro conjI)
qed

section \<open>The CSV text\<close>

subsection \<open>Results of the parts\<close>

lemma map_result_Inr_D:
  "map_result f xs = Inr ys \<Longrightarrow> list_all2 (\<lambda>x y. f x = Inr y) xs ys"
proof (induction xs arbitrary: ys)
  case Nil
  then show ?case by simp
next
  case (Cons x xs)
  from Cons.prems obtain y zs where "f x = Inr y" "map_result f xs = Inr zs" "ys = y # zs"
    by (auto split: sum.splits)
  with Cons.IH show ?case by simp
qed

lemma map_result_Inr_I:
  "list_all2 (\<lambda>x y. f x = Inr y) xs ys \<Longrightarrow> map_result f xs = Inr ys"
  by (induction rule: list_all2_induct) simp_all

lemma map_result_Inr_iff: "map_result f xs = Inr ys \<longleftrightarrow> list_all2 (\<lambda>x y. f x = Inr y) xs ys"
  using map_result_Inr_D map_result_Inr_I by blast

lemma map_result_returns_iff: "(\<exists>ys. map_result f xs = Inr ys) \<longleftrightarrow> (\<forall>x\<in>set xs. \<exists>y. f x = Inr y)"
proof (induction xs)
  case Nil
  show ?case by simp
next
  case (Cons x xs)
  show ?case
  proof (cases "f x")
    case (Inl e)
    then show ?thesis by auto
  next
    case (Inr y)
    with Cons show ?thesis
      by (cases "map_result f xs") auto
  qed
qed

lemma resolve_cols_cases:
  "resolve_cols rows columns =
     (if given columns then Inr (the columns)
      else case rows of [] \<Rightarrow> Inr [] | r # _ \<Rightarrow> Object_keys r)"
proof (cases columns)
  case None
  then show ?thesis
    by (cases rows) (simp_all add: resolve_cols_def given_def array_get_def)
next
  case (Some cs)
  then show ?thesis
    by (cases cs; cases rows) (simp_all add: resolve_cols_def given_def array_get_def)
qed

lemma spec_cols_cases:
  "spec_cols rows columns =
     (if given columns then the columns
      else case rows of [] \<Rightarrow> [] | Nullish # _ \<Rightarrow> [] | Row ps inh # _ \<Rightarrow> map fst ps)"
proof (cases columns)
  case None
  then show ?thesis
    by (simp add: spec_cols_def given_def split: list.splits jsrow.splits)
next
  case (Some cs)
  then show ?thesis
    by (cases cs) (simp_all add: spec_cols_def given_def split: list.splits jsrow.splits)
qed

lemma resolve_cols_Inr: "resolve_cols rows columns = Inr cols \<Longrightarrow> cols = spec_cols rows columns"
proof (cases "given columns")
  case True
  assume "resolve_cols rows columns = Inr cols"
  with True show ?thesis by (simp add: resolve_cols_cases spec_cols_cases)
next
  case False
  assume res: "resolve_cols rows columns = Inr cols"
  show ?thesis
  proof (cases rows)
    case Nil
    with False res show ?thesis by (simp add: resolve_cols_cases spec_cols_cases)
  next
    case (Cons r rs)
    with False res show ?thesis
      by (cases r) (simp_all add: resolve_cols_cases spec_cols_cases Object_keys_def)
  qed
qed

lemma resolve_cols_returns_iff:
  "(\<exists>cols. resolve_cols rows columns = Inr cols) \<longleftrightarrow> given columns \<or> rows = [] \<or> hd rows \<noteq> Nullish"
proof (cases "given columns")
  case True
  then show ?thesis by (simp add: resolve_cols_cases)
next
  case False
  show ?thesis
  proof (cases rows)
    case Nil
    with False show ?thesis by (simp add: resolve_cols_cases)
  next
    case (Cons r rs)
    with False show ?thesis
      by (cases r) (simp_all add: resolve_cols_cases Object_keys_def)
  qed
qed

lemma row_line_Inr_iff:
  "row_line cols r = Inr l \<longleftrightarrow> (\<exists>cells. map_result (cell r) cols = Inr cells \<and> l = join cells '','')"
  by (cases "map_result (cell r) cols") (auto simp: row_line_def)

lemma toCSV_Inr_iff:
  "toCSV rows columns = Inr out \<longleftrightarrow>
     (\<exists>lines. resolve_cols rows columns = Inr (spec_cols rows columns)
        \<and> map_result (row_line (spec_cols rows columns)) rows = Inr lines
        \<and> out = join (join (spec_cols rows columns) '','' # lines) CRLF)"
proof (cases "resolve_cols rows columns")
  case (Inl e)
  then show ?thesis by (simp add: toCSV_def)
next
  case (Inr cols)
  then have "cols = spec_cols rows columns" by (rule resolve_cols_Inr)
  with Inr show ?thesis
    by (cases "map_result (row_line (spec_cols rows columns)) rows") (auto simp: toCSV_def Let_def)
qed

lemma join_sep_by: "join xs sep = sep_by sep xs"
  by (induction xs sep rule: join.induct) (simp_all add: sep_by_def)

text \<open>
  C1. The header is \<open>cols.join(",")\<close>: no column name passes through
  \<open>escapeCSVValue\<close>. For the single column \<open>a,b\<close> and no rows the output is the raw
  \<open>a,b\<close>, where the same string as a cell is written \<open>"a,b"\<close>; and a row whose one key
  is \<open>a,b\<close> gets a header of two fields over a line of one.
\<close>

theorem toCSV_header_raw:
  "toCSV [] (Some [''a,b'']) = Inr ''a,b''
   \<and> escapeCSVValue (JStr ''a,b'') = Inr ''\"a,b\"''
   \<and> toCSV [object_literal [(''a,b'', JStr ''a,b'')]] None = Inr (''a,b'' @ CRLF @ ''\"a,b\"'')"
  by (simp add: toCSV_def resolve_cols_def Object_keys_def array_get_def row_line_def cell_def
      object_literal_def get_prop_def escapeCSVValue_def needsQuotes_def)

text \<open>
  C5. Whenever \<open>toCSV\<close> returns, the output is the header and one line per row, put
  together with carriage return and line feed between neighbours; the header is the
  column list with commas between the names, and the line of a row holds, with commas
  between them, the cells of that row under the columns, in the order of the column
  list. The column list is the \<open>columns\<close> argument when that is not empty, else the keys
  of the first row in their order, else empty. With no rows and no columns the output
  is the empty line.
\<close>

theorem toCSV_columns_and_lines:
  assumes "toCSV rows columns = Inr out"
  shows "(\<exists>lines.
            list_all2
              (\<lambda>r line. \<exists>cells.
                  list_all2 (\<lambda>c t. cell r c = Inr t) (spec_cols rows columns) cells
                  \<and> line = sep_by '','' cells)
              rows lines
          \<and> out = sep_by [CHR 0x0D, CHR 0x0A] (sep_by '','' (spec_cols rows columns) # lines))
       \<and> toCSV [] (Some []) = Inr [] \<and> toCSV [] None = Inr []
       \<and> toCSV [object_literal [(''id'', JNum 1), (''name'', JStr ''Acme, Inc.'')],
                 object_literal [(''name'', JNull), (''id'', JNum 2)]] (Some [''name'', ''id''])
           = Inr [CHR ''n'', CHR ''a'', CHR ''m'', CHR ''e'', CHR '','', CHR ''i'', CHR ''d'',
                  CHR 0x0D, CHR 0x0A,
                  CHR ''\"'', CHR ''A'', CHR ''c'', CHR ''m'', CHR ''e'', CHR '','', CHR '' '',
                  CHR ''I'', CHR ''n'', CHR ''c'', CHR ''.'', CHR ''\"'', CHR '','', CHR ''1'',
                  CHR 0x0D, CHR 0x0A,
                  CHR '','', CHR ''2'']
       \<and> toCSV [object_literal [(''id'', JNum 1), (''name'', JStr ''Acme'')],
                 object_literal [(''name'', JStr ''Beacon''), (''id'', JNum 2)]] None
           = Inr [CHR ''i'', CHR ''d'', CHR '','', CHR ''n'', CHR ''a'', CHR ''m'', CHR ''e'',
                  CHR 0x0D, CHR 0x0A,
                  CHR ''1'', CHR '','', CHR ''A'', CHR ''c'', CHR ''m'', CHR ''e'',
                  CHR 0x0D, CHR 0x0A,
                  CHR ''2'', CHR '','', CHR ''B'', CHR ''e'', CHR ''a'', CHR ''c'', CHR ''o'', CHR ''n'']"
proof -
  let ?cols = "spec_cols rows columns"
  from assms obtain lines where
    lines: "map_result (row_line ?cols) rows = Inr lines"
    and out: "out = join (join ?cols '','' # lines) CRLF"
    unfolding toCSV_Inr_iff by blast
  have "list_all2
          (\<lambda>r line. \<exists>cells. list_all2 (\<lambda>c t. cell r c = Inr t) ?cols cells
              \<and> line = sep_by '','' cells) rows lines"
    using lines
    by (simp add: map_result_Inr_iff row_line_Inr_iff join_sep_by)
  moreover have "out = sep_by [CHR 0x0D, CHR 0x0A] (sep_by '','' ?cols # lines)"
    by (simp add: out join_sep_by CRLF_def CR_def LF_def)
  ultimately have general: "\<exists>lines.
            list_all2
              (\<lambda>r line. \<exists>cells.
                  list_all2 (\<lambda>c t. cell r c = Inr t) ?cols cells
                  \<and> line = sep_by '','' cells)
              rows lines
          \<and> out = sep_by [CHR 0x0D, CHR 0x0A] (sep_by '','' ?cols # lines)"
    by blast
  have empty: "toCSV [] (Some []) = Inr [] \<and> toCSV [] None = Inr []"
    by (simp add: toCSV_def resolve_cols_def)
  have given_columns: "toCSV [object_literal [(''id'', JNum 1), (''name'', JStr ''Acme, Inc.'')],
                 object_literal [(''name'', JNull), (''id'', JNum 2)]] (Some [''name'', ''id''])
           = Inr [CHR ''n'', CHR ''a'', CHR ''m'', CHR ''e'', CHR '','', CHR ''i'', CHR ''d'',
                  CHR 0x0D, CHR 0x0A,
                  CHR ''\"'', CHR ''A'', CHR ''c'', CHR ''m'', CHR ''e'', CHR '','', CHR '' '',
                  CHR ''I'', CHR ''n'', CHR ''c'', CHR ''.'', CHR ''\"'', CHR '','', CHR ''1'',
                  CHR 0x0D, CHR 0x0A,
                  CHR '','', CHR ''2'']"
    by code_simp
  have derived_columns: "toCSV [object_literal [(''id'', JNum 1), (''name'', JStr ''Acme'')],
                 object_literal [(''name'', JStr ''Beacon''), (''id'', JNum 2)]] None
           = Inr [CHR ''i'', CHR ''d'', CHR '','', CHR ''n'', CHR ''a'', CHR ''m'', CHR ''e'',
                  CHR 0x0D, CHR 0x0A,
                  CHR ''1'', CHR '','', CHR ''A'', CHR ''c'', CHR ''m'', CHR ''e'',
                  CHR 0x0D, CHR 0x0A,
                  CHR ''2'', CHR '','', CHR ''B'', CHR ''e'', CHR ''a'', CHR ''c'', CHR ''o'', CHR ''n'']"
    by code_simp
  from general empty given_columns derived_columns show ?thesis
    by (intro conjI) (elim conjE, assumption)+
qed

theorem toCSV_columns_and_lines_witness:
  "toCSV [object_literal [(''id'', JNum 7)]] None = Inr (''id'' @ CRLF @ ''7'')
   \<and> (\<exists>lines.
         list_all2
           (\<lambda>r line. \<exists>cells.
               list_all2 (\<lambda>c t. cell r c = Inr t)
                 (spec_cols [object_literal [(''id'', JNum 7)]] None) cells
               \<and> line = sep_by '','' cells)
           [object_literal [(''id'', JNum 7)]] lines
       \<and> ''id'' @ CRLF @ ''7''
           = sep_by [CHR 0x0D, CHR 0x0A] (sep_by '','' (spec_cols [object_literal [(''id'', JNum 7)]] None) # lines))"
proof -
  have out: "toCSV [object_literal [(''id'', JNum 7)]] None = Inr (''id'' @ CRLF @ ''7'')"
    by code_simp
  note t = toCSV_columns_and_lines [OF out]
  from t have "\<exists>lines.
         list_all2
           (\<lambda>r line. \<exists>cells.
               list_all2 (\<lambda>c t. cell r c = Inr t)
                 (spec_cols [object_literal [(''id'', JNum 7)]] None) cells
               \<and> line = sep_by '','' cells)
           [object_literal [(''id'', JNum 7)]] lines
       \<and> ''id'' @ CRLF @ ''7''
           = sep_by [CHR 0x0D, CHR 0x0A] (sep_by '','' (spec_cols [object_literal [(''id'', JNum 7)]] None) # lines)"
    by (elim conjE)
  with out show ?thesis by (intro conjI)
qed

subsection \<open>Lines and separators\<close>

lemma cut_at_none: "hd sep \<notin> set s \<Longrightarrow> sep \<noteq> [] \<Longrightarrow> cut_at sep s = None"
  by (induction s) (auto simp: prefix_def neq_Nil_conv)

lemma cut_at_first:
  "hd sep \<notin> set x \<Longrightarrow> sep \<noteq> [] \<Longrightarrow> cut_at sep (x @ sep @ rest) = Some (x, rest)"
proof (induction x)
  case Nil
  then show ?case by (cases sep) simp_all
next
  case (Cons c x)
  then have "\<not> prefix sep (c # x @ sep @ rest)"
    by (auto simp: prefix_def neq_Nil_conv)
  with Cons show ?case by simp
qed

lemma split_join:
  assumes "sep \<noteq> []"
  shows "xs \<noteq> [] \<Longrightarrow> \<forall>x\<in>set xs. hd sep \<notin> set x \<Longrightarrow> split (join xs sep) sep = xs"
proof (induction xs)
  case Nil
  then show ?case by simp
next
  case (Cons x xs)
  show ?case
  proof (cases xs)
    case Nil
    with Cons.prems assms show ?thesis
      by (subst split.simps) (simp add: cut_at_none)
  next
    case (Cons y ys)
    with Cons.prems Cons.IH assms show ?thesis
      by (subst split.simps) (simp add: cut_at_first)
  qed
qed

lemma needs_quoting_Nil: "\<not> needs_quoting []"
  by (simp add: needs_quoting_def)

lemma quoted_if_needed_Nil: "quoted_if_needed [] = []"
  by (simp add: quoted_if_needed_def needs_quoting_Nil)

lemma quoted_empty_iff: "quoted_if_needed s = [] \<longleftrightarrow> s = []"
  by (auto simp: quoted_if_needed_def needs_quoting_Nil)

lemma set_double_quotes: "set (double_quotes s) = set s"
  by (induction s) (auto simp: double_quotes_def)

lemma quoted_no_char: "c \<noteq> CHR ''\"'' \<Longrightarrow> c \<notin> set s \<Longrightarrow> c \<notin> set (quoted_if_needed s)"
  by (simp add: quoted_if_needed_def set_double_quotes)

lemma quoted_last: "quoted_if_needed s \<noteq> [] \<Longrightarrow> last (quoted_if_needed s) \<noteq> LF"
proof (cases "needs_quoting s")
  case True
  then show ?thesis by (simp add: quoted_if_needed_def LF_def)
next
  case False
  assume "quoted_if_needed s \<noteq> []"
  with False have "s \<noteq> []"
    by (simp add: quoted_if_needed_def)
  moreover from False have "LF \<notin> set s"
    by (simp add: needs_quoting_def)
  ultimately have "last s \<noteq> LF"
    using last_in_set by metis
  with False show ?thesis by (simp add: quoted_if_needed_def)
qed

lemma cell_Inr: "cell r c = Inr t \<Longrightarrow> t = quoted_if_needed (cell_string r c)"
proof -
  assume c: "cell r c = Inr t"
  then obtain v where v: "get_prop r c = Inr v" "escapeCSVValue v = Inr t"
    by (cases "get_prop r c") (simp_all add: cell_def)
  show ?thesis
  proof (cases "v = JNull \<or> v = JUndefined")
    case True
    with v show ?thesis
      by (auto simp: escapeCSVValue_cases cell_string_def quoted_if_needed_Nil)
  next
    case False
    with v obtain s where "String_of v = Inr s" "t = quoted_if_needed s"
      by (cases "String_of v") (simp_all add: escapeCSVValue_cases)
    with v False show ?thesis
      by (simp add: cell_string_def)
  qed
qed

lemma cell_empty_iff:
  "cell r c = Inr [] \<longleftrightarrow>
     (\<exists>v. get_prop r c = Inr v \<and> (v = JNull \<or> v = JUndefined \<or> String_of v = Inr []))"
proof (cases "get_prop r c")
  case (Inl e)
  then show ?thesis by (simp add: cell_def)
next
  case (Inr v)
  show ?thesis
  proof (cases "v = JNull \<or> v = JUndefined")
    case True
    with Inr show ?thesis by (auto simp: cell_def escapeCSVValue_cases)
  next
    case False
    with Inr show ?thesis
      by (cases "String_of v") (simp_all add: cell_def escapeCSVValue_cases quoted_empty_iff)
  qed
qed

lemma join_no_char: "c \<notin> set sep \<Longrightarrow> \<forall>x\<in>set xs. c \<notin> set x \<Longrightarrow> c \<notin> set (join xs sep)"
  by (induction xs sep rule: join.induct) auto

lemma join_last_neq:
  assumes "sep \<noteq> []" and "last sep \<noteq> c"
  shows "\<forall>x\<in>set xs. x \<noteq> [] \<longrightarrow> last x \<noteq> c \<Longrightarrow> join xs sep \<noteq> [] \<Longrightarrow> last (join xs sep) \<noteq> c"
proof (induction xs)
  case Nil
  then show ?case by simp
next
  case (Cons x xs)
  show ?case
  proof (cases xs)
    case Nil
    with Cons.prems show ?thesis by simp
  next
    case (Cons y ys)
    show ?thesis
    proof (cases "join xs sep = []")
      case True
      with Cons assms show ?thesis by simp
    next
      case False
      with Cons.IH Cons.prems have "last (join xs sep) \<noteq> c" by simp
      with False Cons show ?thesis by simp
    qed
  qed
qed

lemma join_ends_with_last: "ys \<noteq> [] \<Longrightarrow> \<exists>pre. join (x # ys) sep = pre @ sep @ last ys"
proof (induction ys arbitrary: x)
  case Nil
  then show ?case by simp
next
  case (Cons y ys)
  show ?case
  proof (cases ys)
    case Nil
    then show ?thesis by simp
  next
    case (Cons z zs)
    then have "ys \<noteq> []" by simp
    from Cons.IH [OF this] obtain pre where "join (y # ys) sep = pre @ sep @ last ys"
      by blast
    with Cons have "join (x # y # ys) sep = (x @ sep @ pre) @ sep @ last (y # ys)"
      by simp
    then show ?thesis by blast
  qed
qed

lemma join_empty_iff: "sep \<noteq> [] \<Longrightarrow> join xs sep = [] \<longleftrightarrow> xs = [] \<or> xs = [[]]"
proof (cases xs)
  case Nil
  then show ?thesis by simp
next
  case (Cons x ys)
  assume "sep \<noteq> []"
  with Cons show ?thesis by (cases ys) simp_all
qed

lemma list_all2_right: "list_all2 P xs ys \<Longrightarrow> y \<in> set ys \<Longrightarrow> \<exists>x\<in>set xs. P x y"
  by (induction rule: list_all2_induct) auto

lemma map_result_all_Inr: "\<forall>x\<in>set xs. f x = Inr (g x) \<Longrightarrow> map_result f xs = Inr (map g xs)"
  by (induction xs) simp_all

lemma row_line_cells:
  assumes "row_line cols r = Inr l"
  obtains cells where "l = join cells '',''"
    and "\<forall>t\<in>set cells. \<exists>k\<in>set cols. t = quoted_if_needed (cell_string r k)"
proof -
  from assms obtain cells where m: "map_result (cell r) cols = Inr cells" and l: "l = join cells '',''"
    unfolding row_line_Inr_iff by blast
  from m have all2: "list_all2 (\<lambda>c t. cell r c = Inr t) cols cells"
    by (rule map_result_Inr_D)
  have "\<exists>k\<in>set cols. t = quoted_if_needed (cell_string r k)" if "t \<in> set cells" for t
  proof -
    from list_all2_right [OF all2 that] obtain k where "k \<in> set cols" "cell r k = Inr t"
      by blast
    then show ?thesis using cell_Inr by blast
  qed
  with l that show ?thesis by blast
qed

lemma row_line_last:
  assumes "row_line cols r = Inr l" and "l \<noteq> []"
  shows "last l \<noteq> LF"
proof -
  from assms(1) obtain cells where l: "l = join cells '',''"
    and cells: "\<forall>t\<in>set cells. \<exists>k\<in>set cols. t = quoted_if_needed (cell_string r k)"
    by (rule row_line_cells)
  have "\<forall>t\<in>set cells. t \<noteq> [] \<longrightarrow> last t \<noteq> LF"
  proof (intro ballI impI)
    fix t assume "t \<in> set cells" and nonempty: "t \<noteq> []"
    with cells obtain k where t: "t = quoted_if_needed (cell_string r k)" by blast
    from nonempty show "last t \<noteq> LF" unfolding t by (rule quoted_last)
  qed
  moreover have "'','' \<noteq> []" and "last '','' \<noteq> LF"
    by (simp_all add: LF_def)
  ultimately show ?thesis
    using assms(2) unfolding l by (intro join_last_neq)
qed

lemma row_line_no_char:
  assumes "row_line cols r = Inr l" and "c \<noteq> CHR ''\"''" and "c \<noteq> CHR '',''"
    and "\<forall>k\<in>set cols. c \<notin> set (cell_string r k)"
  shows "c \<notin> set l"
proof -
  from assms(1) obtain cells where l: "l = join cells '',''"
    and cells: "\<forall>t\<in>set cells. \<exists>k\<in>set cols. t = quoted_if_needed (cell_string r k)"
    by (rule row_line_cells)
  have "\<forall>t\<in>set cells. c \<notin> set t"
  proof
    fix t assume "t \<in> set cells"
    with cells obtain k where k: "k \<in> set cols" and t: "t = quoted_if_needed (cell_string r k)"
      by blast
    from k assms(4) have "c \<notin> set (cell_string r k)" by simp
    with assms(2) show "c \<notin> set t" unfolding t by (rule quoted_no_char)
  qed
  moreover have "c \<notin> set '',''"
    using assms(3) by simp
  ultimately show ?thesis
    unfolding l by (intro join_no_char)
qed

lemma row_line_empty_iff:
  "row_line cols r = Inr [] \<longleftrightarrow> cols = [] \<or> (\<exists>c. cols = [c] \<and> cell r c = Inr [])"
proof
  assume "row_line cols r = Inr []"
  then obtain cells where m: "map_result (cell r) cols = Inr cells" and "join cells '','' = []"
    unfolding row_line_Inr_iff by auto
  then have "cells = [] \<or> cells = [[]]"
    by (simp add: join_empty_iff)
  moreover from m have "list_all2 (\<lambda>c t. cell r c = Inr t) cols cells"
    by (rule map_result_Inr_D)
  ultimately show "cols = [] \<or> (\<exists>c. cols = [c] \<and> cell r c = Inr [])"
    by (auto simp: list_all2_Cons2)
next
  assume "cols = [] \<or> (\<exists>c. cols = [c] \<and> cell r c = Inr [])"
  then show "row_line cols r = Inr []"
    by (auto simp: row_line_def)
qed

lemma toCSV_lines:
  assumes "toCSV rows columns = Inr out"
  obtains lines where "map_result (row_line (spec_cols rows columns)) rows = Inr lines"
    and "out = join (join (spec_cols rows columns) '','' # lines) CRLF"
  using assms unfolding toCSV_Inr_iff by blast

subsection \<open>Reading the output back\<close>

lemma suffix_last: "suffix s out \<Longrightarrow> s \<noteq> [] \<Longrightarrow> last out = last s"
  by (auto simp: suffix_def)

lemma alnum_not_special:
  "is_alnum c \<Longrightarrow> c \<noteq> CHR ''\"'' \<and> c \<noteq> CHR '','' \<and> c \<noteq> CR \<and> c \<noteq> LF \<and> \<not> is_space c"
  by (auto simp: is_alnum_def CR_def LF_def is_space_def)

lemma alnum_plain:
  assumes "list_all is_alnum s"
  shows "plain s"
proof -
  have each: "c \<noteq> CHR ''\"'' \<and> c \<noteq> CHR '','' \<and> c \<noteq> CR \<and> c \<noteq> LF \<and> \<not> is_space c"
    if "c \<in> set s" for c
    using assms that by (simp add: list_all_iff alnum_not_special)
  have "\<not> is_space (hd s) \<and> \<not> is_space (last s)" if "s \<noteq> []"
    using each [of "hd s"] each [of "last s"] that by simp
  moreover have "CHR ''\"'' \<notin> set s \<and> CHR '','' \<notin> set s \<and> CR \<notin> set s \<and> LF \<notin> set s"
    using each by blast
  ultimately show ?thesis
    unfolding plain_def needs_quoting_def by blast
qed

lemma plain_cell:
  assumes "get_prop r c = Inr (JStr s)" and "plain s"
  shows "cell r c = Inr s" and "cell_string r c = s"
  using assms
  by (simp_all add: cell_def cell_string_def escapeCSVValue_cases quoted_if_needed_def plain_def)

text \<open>
  C8, as stated, fails where there is no column: the header of \<open>toCSV([], [])\<close> is the
  empty line, and the empty line reads back as one empty field, not as the empty
  column list.
\<close>

theorem toCSV_no_columns_read_back:
  "toCSV [] (Some []) = Inr []
   \<and> map (\<lambda>line. split line '','') (split [] CRLF) = [[[]]]
   \<and> spec_cols [] (Some []) # map (\<lambda>r. map (\<lambda>c. cell_string r c) (spec_cols [] (Some []))) [] = [[]]"
  by (simp add: toCSV_def resolve_cols_def spec_cols_def split.simps CRLF_def)

text \<open>
  C8, amended: the round trip for a row set with at least one column. Let the column
  list be not empty, every column name be plain (no double-quote, comma, carriage return
  or line feed, no white space at either end; an alphanumeric string is plain), and every
  cell under a column be a plain string. Then splitting the output at carriage return and
  line feed, and each line at the commas, gives back the column list followed by the
  cells of each row in column order.
\<close>

theorem toCSV_round_trip:
  assumes cols: "spec_cols rows columns \<noteq> []"
    and names: "\<forall>c\<in>set (spec_cols rows columns). plain c"
    and cells: "\<forall>r\<in>set rows. \<forall>c\<in>set (spec_cols rows columns). \<exists>s. get_prop r c = Inr (JStr s) \<and> plain s"
    and out: "toCSV rows columns = Inr out"
  shows "map (\<lambda>line. split line '','') (split out CRLF)
         = spec_cols rows columns
           # map (\<lambda>r. map (\<lambda>c. cell_string r c) (spec_cols rows columns)) rows"
proof -
  let ?cols = "spec_cols rows columns"
  let ?cells = "\<lambda>r. map (\<lambda>c. cell_string r c) ?cols"
  have one: "cell r c = Inr (cell_string r c)
      \<and> CHR '','' \<notin> set (cell_string r c) \<and> CR \<notin> set (cell_string r c)"
    if "r \<in> set rows" and "c \<in> set ?cols" for r c
  proof -
    from cells that obtain s where s: "get_prop r c = Inr (JStr s)" "plain s" by blast
    then have "cell r c = Inr s" "cell_string r c = s" by (rule plain_cell)+
    moreover from s have "CHR '','' \<notin> set s \<and> CR \<notin> set s"
      by (simp add: plain_def needs_quoting_def)
    ultimately show ?thesis by simp
  qed
  have line: "row_line ?cols r = Inr (join (?cells r) '','')" if "r \<in> set rows" for r
  proof -
    have "map_result (cell r) ?cols = Inr (map (\<lambda>c. cell_string r c) ?cols)"
      using one [OF that] by (intro map_result_all_Inr) simp
    then show ?thesis by (simp add: row_line_def)
  qed
  then have "map_result (row_line ?cols) rows = Inr (map (\<lambda>r. join (?cells r) '','') rows)"
    by (intro map_result_all_Inr) simp
  with out have joined: "out = join (join ?cols '','' # map (\<lambda>r. join (?cells r) '','') rows) CRLF"
    unfolding toCSV_Inr_iff by simp
  have header_cr: "CR \<notin> set (join ?cols '','')"
    using names by (intro join_no_char) (simp_all add: plain_def needs_quoting_def CR_def)
  have line_cr: "CR \<notin> set (join (?cells r) '','')" if "r \<in> set rows" for r
    using one [OF that] by (intro join_no_char) (simp_all add: CR_def)
  have "split (join (join ?cols '','' # map (\<lambda>r. join (?cells r) '','') rows) CRLF) CRLF
      = join ?cols '','' # map (\<lambda>r. join (?cells r) '','') rows"
    using header_cr line_cr by (intro split_join) (auto simp: CRLF_def)
  with joined have lines: "split out CRLF = join ?cols '','' # map (\<lambda>r. join (?cells r) '','') rows"
    by simp
  have header: "split (join ?cols '','') '','' = ?cols"
    using cols names by (intro split_join) (simp_all add: plain_def needs_quoting_def)
  have row: "split (join (?cells r) '','') '','' = ?cells r" if "r \<in> set rows" for r
    using cols one [OF that] by (intro split_join) simp_all
  show ?thesis
    by (simp add: lines header row cong: map_cong)
qed

theorem toCSV_round_trip_witness:
  "toCSV [object_literal [(''id'', JStr ''7''), (''name'', JStr ''Acme'')],
          object_literal [(''name'', JStr ''Beacon''), (''id'', JStr ''8'')]] (Some [''id'', ''name''])
     = Inr (''id,name'' @ CRLF @ ''7,Acme'' @ CRLF @ ''8,Beacon'')
   \<and> map (\<lambda>line. split line '','') (split (''id,name'' @ CRLF @ ''7,Acme'' @ CRLF @ ''8,Beacon'') CRLF)
     = [[''id'', ''name''], [''7'', ''Acme''], [''8'', ''Beacon'']]"
proof -
  let ?rows = "[object_literal [(''id'', JStr ''7''), (''name'', JStr ''Acme'')],
                object_literal [(''name'', JStr ''Beacon''), (''id'', JStr ''8'')]]"
  let ?columns = "Some [''id'', ''name'']"
  let ?out = "''id,name'' @ CRLF @ ''7,Acme'' @ CRLF @ ''8,Beacon''"
  have sc: "spec_cols ?rows ?columns = [''id'', ''name'']"
    by (simp add: spec_cols_def)
  have p: "plain ''id''" "plain ''name''" "plain ''7''" "plain ''Acme''" "plain ''8''" "plain ''Beacon''"
    by (simp_all add: alnum_plain is_alnum_def)
  have cols: "spec_cols ?rows ?columns \<noteq> []"
    by (simp add: sc)
  have names: "\<forall>c\<in>set (spec_cols ?rows ?columns). plain c"
    by (simp add: sc p)
  have cells: "\<forall>r\<in>set ?rows. \<forall>c\<in>set (spec_cols ?rows ?columns). \<exists>s. get_prop r c = Inr (JStr s) \<and> plain s"
    unfolding sc by (simp add: p get_prop_def object_literal_def)
  have out: "toCSV ?rows ?columns = Inr ?out"
    by code_simp
  from toCSV_round_trip [OF cols names cells out]
  have "map (\<lambda>line. split line '','') (split ?out CRLF) = [[''id'', ''name''], [''7'', ''Acme''], [''8'', ''Beacon'']]"
    unfolding sc by (simp add: cell_string_def get_prop_def object_literal_def)
  with out show ?thesis by (intro conjI)
qed

subsection \<open>The end of the output\<close>

text \<open>
  C10, as stated, fails: with the one column \<open>a\<close> and one row whose cell is \<open>null\<close> the
  row line is empty, and the output is \<open>a\<close> followed by carriage return and line feed.
\<close>

theorem toCSV_empty_last_line:
  "toCSV [object_literal [(''a'', JNull)]] (Some [''a'']) = Inr [CHR ''a'', CR, LF]
   \<and> suffix CRLF [CHR ''a'', CR, LF]"
  by (simp add: toCSV_def resolve_cols_def row_line_def cell_def escapeCSVValue_def get_prop_def
      object_literal_def CRLF_def suffix_def)

text \<open>
  C10, amended. The output is the header and the row lines joined by carriage return and
  line feed, with nothing added after the last line. When no column name contains a
  carriage return or a line feed, the output ends with carriage return and line feed
  exactly when there is a row and the line of the last row is empty. The line of a row
  is empty exactly when there is no column at all, or one column under which the cell of
  the row is empty; and a cell is empty exactly when the value read is \<open>null\<close> or
  \<open>undefined\<close> (as for a key found neither on the row nor among what it inherits) or has
  the empty string as its string. When moreover no cell string contains a carriage return
  or a line feed, splitting the output at carriage return and line feed gives one line
  more than there are rows.
\<close>

theorem toCSV_last_line:
  assumes names: "\<forall>c\<in>set (spec_cols rows columns). CR \<notin> set c \<and> LF \<notin> set c"
    and out: "toCSV rows columns = Inr out"
  shows "(\<exists>lines. list_all2 (\<lambda>r l. row_line (spec_cols rows columns) r = Inr l) rows lines
            \<and> out = sep_by CRLF (sep_by '','' (spec_cols rows columns) # lines))
       \<and> (suffix CRLF out \<longleftrightarrow> rows \<noteq> [] \<and> row_line (spec_cols rows columns) (last rows) = Inr [])
       \<and> (\<forall>r. row_line (spec_cols rows columns) r = Inr [] \<longleftrightarrow>
             spec_cols rows columns = []
           \<or> (\<exists>c. spec_cols rows columns = [c] \<and> cell r c = Inr []))
       \<and> (\<forall>r c. cell r c = Inr [] \<longleftrightarrow>
             (\<exists>v. get_prop r c = Inr v \<and> (v = JNull \<or> v = JUndefined \<or> String_of v = Inr [])))
       \<and> (\<forall>ps inh c. c \<notin> fst ` set ps \<and> c \<notin> fst ` set inh \<longrightarrow> get_prop (Row ps inh) c = Inr JUndefined)
       \<and> ((\<forall>r\<in>set rows. \<forall>c\<in>set (spec_cols rows columns).
               CR \<notin> set (cell_string r c) \<and> LF \<notin> set (cell_string r c))
            \<longrightarrow> length (split out CRLF) = 1 + length rows)"
proof -
  let ?cols = "spec_cols rows columns"
  let ?header = "join ?cols '',''"
  from out obtain lines where
    lines: "map_result (row_line ?cols) rows = Inr lines"
    and joined: "out = join (?header # lines) CRLF"
    by (rule toCSV_lines)
  from lines have all2: "list_all2 (\<lambda>r l. row_line ?cols r = Inr l) rows lines"
    by (rule map_result_Inr_D)
  then have len: "length lines = length rows"
    by (simp add: list_all2_lengthD)
  have shape: "\<exists>lines. list_all2 (\<lambda>r l. row_line ?cols r = Inr l) rows lines
            \<and> out = sep_by CRLF (sep_by '','' ?cols # lines)"
    using all2 joined by (auto simp: join_sep_by)
  have header_cr: "CR \<notin> set ?header"
    using names by (intro join_no_char) (simp_all add: CR_def)
  have header_lf: "LF \<notin> set ?header"
    using names by (intro join_no_char) (simp_all add: LF_def)
  have ends: "suffix CRLF out \<longleftrightarrow> rows \<noteq> [] \<and> row_line ?cols (last rows) = Inr []"
  proof (cases "rows = []")
    case True
    with len have "out = ?header" using joined by simp
    moreover have "\<not> suffix CRLF ?header"
    proof
      assume "suffix CRLF ?header"
      then have "set CRLF \<subseteq> set ?header" by (rule set_mono_suffix)
      with header_lf show False by (simp add: CRLF_def)
    qed
    ultimately show ?thesis using True by simp
  next
    case False
    with len have nonempty: "lines \<noteq> []" by auto
    from all2 False nonempty have last_line: "row_line ?cols (last rows) = Inr (last lines)"
      by (simp add: list_all2_conv_all_nth last_conv_nth)
    from join_ends_with_last [OF nonempty] obtain pre where
      "join (?header # lines) CRLF = pre @ CRLF @ last lines" by blast
    with joined have shape: "out = pre @ CRLF @ last lines"
      by simp
    show ?thesis
    proof (cases "last lines = []")
      case True
      with shape False last_line show ?thesis by (simp add: suffix_def)
    next
      case filled: False
      then have "last out \<noteq> LF"
        using shape row_line_last [OF last_line filled] by simp
      moreover have "last out = LF" if "suffix CRLF out"
        using suffix_last [OF that] by (simp add: CRLF_def)
      ultimately show ?thesis using filled last_line by auto
    qed
  qed
  have empty_line: "\<forall>r. row_line ?cols r = Inr [] \<longleftrightarrow>
             ?cols = [] \<or> (\<exists>c. ?cols = [c] \<and> cell r c = Inr [])"
    by (simp add: row_line_empty_iff)
  have empty_cell: "\<forall>r c. cell r c = Inr [] \<longleftrightarrow>
             (\<exists>v. get_prop r c = Inr v \<and> (v = JNull \<or> v = JUndefined \<or> String_of v = Inr []))"
    by (simp add: cell_empty_iff)
  have absent: "\<forall>ps inh c. c \<notin> fst ` set ps \<and> c \<notin> fst ` set inh
      \<longrightarrow> get_prop (Row ps inh) c = Inr JUndefined"
    by (simp add: get_prop_def map_of_eq_None_iff [THEN iffD2])
  have count: "length (split out CRLF) = 1 + length rows"
    if cells: "\<forall>r\<in>set rows. \<forall>c\<in>set ?cols.
               CR \<notin> set (cell_string r c) \<and> LF \<notin> set (cell_string r c)"
  proof -
    have "CR \<notin> set l" if "l \<in> set lines" for l
    proof -
      from list_all2_right [OF all2 that] obtain r where r: "r \<in> set rows" "row_line ?cols r = Inr l"
        by blast
      from r(1) cells have "\<forall>k\<in>set ?cols. CR \<notin> set (cell_string r k)" by simp
      with r(2) show ?thesis
        by (intro row_line_no_char [where c = CR and r = r and cols = ?cols]) (simp_all add: CR_def)
    qed
    with header_cr have "split (join (?header # lines) CRLF) CRLF = ?header # lines"
      by (intro split_join) (auto simp: CRLF_def)
    then show ?thesis using joined len by simp
  qed
  have count': "(\<forall>r\<in>set rows. \<forall>c\<in>set ?cols.
               CR \<notin> set (cell_string r c) \<and> LF \<notin> set (cell_string r c))
            \<longrightarrow> length (split out CRLF) = 1 + length rows"
    by (rule impI) (rule count)
  from shape ends empty_line empty_cell absent count' show ?thesis
    by (intro conjI)
qed

theorem toCSV_last_line_witness:
  "toCSV [object_literal [(''id'', JStr ''7''), (''name'', JNull)]] None = Inr (''id,name'' @ CRLF @ ''7,'')
   \<and> \<not> suffix CRLF (''id,name'' @ CRLF @ ''7,'')
   \<and> length (split (''id,name'' @ CRLF @ ''7,'') CRLF) = 2"
proof -
  let ?rows = "[object_literal [(''id'', JStr ''7''), (''name'', JNull)]]"
  let ?out = "''id,name'' @ CRLF @ ''7,''"
  have sc: "spec_cols ?rows None = [''id'', ''name'']"
    by (simp add: spec_cols_def object_literal_def)
  have names: "\<forall>c\<in>set (spec_cols ?rows None). CR \<notin> set c \<and> LF \<notin> set c"
    by (simp add: sc CR_def LF_def)
  have cells: "\<forall>r\<in>set ?rows. \<forall>c\<in>set (spec_cols ?rows None).
       CR \<notin> set (cell_string r c) \<and> LF \<notin> set (cell_string r c)"
    unfolding sc by (simp add: get_prop_def cell_string_def object_literal_def CR_def LF_def)
  have line: "row_line (spec_cols ?rows None) (last ?rows) = Inr ''7,''"
    unfolding sc by code_simp
  have out: "toCSV ?rows None = Inr ?out"
    by code_simp
  note t = toCSV_last_line [OF names out]
  from t have "suffix CRLF ?out \<longleftrightarrow>
      ?rows \<noteq> [] \<and> row_line (spec_cols ?rows None) (last ?rows) = Inr []"
    by (elim conjE)
  then have open_end: "\<not> suffix CRLF ?out"
    unfolding line by simp
  from t have "(\<forall>r\<in>set ?rows. \<forall>c\<in>set (spec_cols ?rows None).
       CR \<notin> set (cell_string r c) \<and> LF \<notin> set (cell_string r c))
     \<longrightarrow> length (split ?out CRLF) = 1 + length ?rows"
    by (elim conjE)
  with cells have "length (split ?out CRLF) = 1 + length ?rows"
    by (rule rev_mp)
  then have two: "length (split ?out CRLF) = 2"
    by simp
  from out open_end two show ?thesis by (intro conjI)
qed

section \<open>The search\<close>

lemma insert_cmp_insort:
  "insert_cmp (\<lambda>a b. score b - score a) x ys = insort_key (\<lambda>r. - score r) x ys"
  by (induction ys) simp_all

lemma sort_cmp_sort_key:
  "sort_cmp (\<lambda>a b. score b - score a) xs = sort_key (\<lambda>r. - score r) xs"
  by (induction xs) (simp_all add: sort_cmp_def sort_key_def insert_cmp_insort)

lemma includes_str_sublist: "includes_str s q = sublist q s"
  by (induction s) (simp_all add: sublist_Cons_right)

lemma mockSearch_empty:
  "normalized query = [] \<Longrightarrow>
   mockSearch query st =
     (\<lparr>items = [],
       explanation = ''Type a query and press Search. Results are mocked for demo.'',
       tips = [''Filtering matches on name or category (case-insensitive).'']\<rparr>, st)"
  by (simp add: mockSearch_def)

lemma mockSearch_general:
  assumes "normalized query \<noteq> []" and "MOCK_DATA_ref < length st"
  shows "mockSearch query st =
     (\<lparr>items = ranked (normalized query) (st ! MOCK_DATA_ref),
       explanation = general_explanation (length (ranked (normalized query) (st ! MOCK_DATA_ref))) query,
       tips = general_tips query\<rparr>,
      st @ [ranked (normalized query) (st ! MOCK_DATA_ref)])"
  using assms
  by (simp add: mockSearch_def array_filter_def array_sort_def Let_def ranked_def
      sort_cmp_sort_key nth_append)

lemma ranked_sorted: "sorted_wrt (\<lambda>a b. score b \<le> score a) (ranked q records)"
proof -
  have "sorted (map (\<lambda>r. - score r) (ranked q records))"
    by (simp add: ranked_def)
  then show ?thesis by (simp add: sorted_map)
qed

lemma ranked_stable:
  "filter (\<lambda>r. score r = k) (ranked q records) = filter (\<lambda>r. score r = k) (filter (matches q) records)"
proof -
  have "filter (\<lambda>r. - score r = - k) (ranked q records)
        = filter (\<lambda>r. - score r = - k) (filter (matches q) records)"
    unfolding ranked_def by (rule sort_key_stable)
  then show ?thesis by simp
qed

lemma ranked_mset: "mset (ranked q records) = filter_mset (matches q) (mset records)"
  by (simp add: ranked_def)

lemma ranked_set: "set (ranked q records) = {r \<in> set records. matches q r}"
  by (auto simp: ranked_def)

lemma trim_empty_iff: "trim s = [] \<longleftrightarrow> list_all is_space s"
proof
  assume "trim s = []"
  then have spaces: "\<forall>x\<in>set (dropWhile is_space s). is_space x"
    by (simp add: trim_def dropWhile_eq_Nil_conv)
  have "dropWhile is_space s = []"
  proof (rule ccontr)
    assume rest: "dropWhile is_space s \<noteq> []"
    then have "\<not> is_space (hd (dropWhile is_space s))"
      by (rule hd_dropWhile)
    moreover have "hd (dropWhile is_space s) \<in> set (dropWhile is_space s)"
      using rest by simp
    ultimately show False using spaces by blast
  qed
  then show "list_all is_space s"
    by (simp add: dropWhile_eq_Nil_conv list_all_iff)
next
  assume "list_all is_space s"
  then have none_left: "dropWhile is_space s = []"
    by (simp add: dropWhile_eq_Nil_conv list_all_iff)
  show "trim s = []"
    unfolding trim_def none_left by simp
qed

lemma normalized_empty_iff: "normalized s = [] \<longleftrightarrow> list_all is_space s"
  by (simp add: normalized_def toLowerCase_def trim_empty_iff)


text \<open>
  C2. For a query whose trimmed, lowercased form is not empty: every record of \<open>items\<close>
  has the normalized query as a substring of its lowercased name or category; every
  record of \<open>items\<close> is a record of the collection, with no more copies than the
  collection holds; \<open>items\<close> is in descending order of score; and for every score,
  the records of \<open>items\<close> with that score are the matching records of the collection
  with that score, in the collection's order.
\<close>

theorem mockSearch_items:
  assumes "normalized query \<noteq> []" and "MOCK_DATA_ref < length st"
  shows "(\<forall>r \<in> set (items (fst (mockSearch query st))).
            sublist (normalized query) (toLowerCase (name r))
          \<or> sublist (normalized query) (toLowerCase (category r)))
       \<and> set (items (fst (mockSearch query st))) \<subseteq> set (st ! MOCK_DATA_ref)
       \<and> mset (items (fst (mockSearch query st))) \<subseteq># mset (st ! MOCK_DATA_ref)
       \<and> sorted_wrt (\<lambda>a b. score b \<le> score a) (items (fst (mockSearch query st)))
       \<and> (\<forall>k. filter (\<lambda>r. score r = k) (items (fst (mockSearch query st)))
              = filter (\<lambda>r. score r = k) (filter (matches (normalized query)) (st ! MOCK_DATA_ref)))"
proof -
  let ?its = "items (fst (mockSearch query st))"
  have its: "?its = ranked (normalized query) (st ! MOCK_DATA_ref)"
    using assms by (simp add: mockSearch_general)
  have "\<forall>r \<in> set ?its. sublist (normalized query) (toLowerCase (name r))
          \<or> sublist (normalized query) (toLowerCase (category r))"
    by (simp add: its ranked_set matches_def includes_str_sublist)
  moreover have "set ?its \<subseteq> set (st ! MOCK_DATA_ref)"
    by (auto simp: its ranked_set)
  moreover have "mset ?its \<subseteq># mset (st ! MOCK_DATA_ref)"
    by (simp add: its ranked_mset)
  moreover have "sorted_wrt (\<lambda>a b. score b \<le> score a) ?its"
    by (simp add: its ranked_sorted)
  moreover have "\<forall>k. filter (\<lambda>r. score r = k) ?its
              = filter (\<lambda>r. score r = k) (filter (matches (normalized query)) (st ! MOCK_DATA_ref))"
    by (simp only: its ranked_stable) simp
  ultimately show ?thesis by blast
qed

theorem mockSearch_items_witness:
  "normalized ''  Analytics '' \<noteq> [] \<and> MOCK_DATA_ref < length initial_store
   \<and> sorted_wrt (\<lambda>a b. score b \<le> score a) (items (fst (mockSearch ''  Analytics '' initial_store)))
   \<and> set (items (fst (mockSearch ''  Analytics '' initial_store))) \<subseteq> set (initial_store ! MOCK_DATA_ref)
   \<and> map id' (items (fst (mockSearch ''  Analytics '' initial_store))) = [1, 6, 9]"
proof -
  have q: "normalized ''  Analytics '' \<noteq> []" by code_simp
  have m: "MOCK_DATA_ref < length initial_store" by code_simp
  have e: "map id' (items (fst (mockSearch ''  Analytics '' initial_store))) = [1, 6, 9]"
    by code_simp
  show ?thesis using q m e mockSearch_items [OF q m] by blast
qed

lemma general_explanation_first: "hd (general_explanation n query) = CHR ''S''"
  by (simp add: general_explanation_def)

text \<open>
  C4. A query whose trimmed, lowercased form is empty consists of white space only (or
  is empty), and for it the search returns no items, the fixed instructional explanation
  and the one tip on the matching rule, whatever the store holds. The branch is not the
  general path with no match: for any query with a non-empty normalized form, also one
  that matches nothing, the explanation is a different string and there are three tips.
\<close>

theorem mockSearch_empty_query:
  assumes "normalized query = []"
  shows "list_all is_space query
       \<and> fst (mockSearch query st) =
           \<lparr>items = [],
            explanation = ''Type a query and press Search. Results are mocked for demo.'',
            tips = [''Filtering matches on name or category (case-insensitive).'']\<rparr>
       \<and> (\<forall>other. normalized other \<noteq> [] \<and> MOCK_DATA_ref < length st \<longrightarrow>
             explanation (fst (mockSearch other st)) \<noteq> explanation (fst (mockSearch query st))
           \<and> length (tips (fst (mockSearch other st))) = 3
           \<and> tips (fst (mockSearch other st)) \<noteq> tips (fst (mockSearch query st)))"
proof -
  have spaces: "list_all is_space query"
    using assms by (simp add: normalized_empty_iff)
  have fixed: "fst (mockSearch query st) =
           \<lparr>items = [],
            explanation = ''Type a query and press Search. Results are mocked for demo.'',
            tips = [''Filtering matches on name or category (case-insensitive).'']\<rparr>"
    using assms by (simp add: mockSearch_empty)
  have "explanation (fst (mockSearch other st)) \<noteq> explanation (fst (mockSearch query st))
      \<and> length (tips (fst (mockSearch other st))) = 3
      \<and> tips (fst (mockSearch other st)) \<noteq> tips (fst (mockSearch query st))"
    if "normalized other \<noteq> []" and "MOCK_DATA_ref < length st" for other
  proof -
    have "hd (explanation (fst (mockSearch other st))) = CHR ''S''"
      using that by (simp add: mockSearch_general general_explanation_first)
    moreover have "hd (explanation (fst (mockSearch query st))) = CHR ''T''"
      by (simp add: fixed)
    ultimately have "explanation (fst (mockSearch other st)) \<noteq> explanation (fst (mockSearch query st))"
      by auto
    moreover have three: "length (tips (fst (mockSearch other st))) = 3"
      using that by (simp add: mockSearch_general general_tips_def)
    moreover have "length (tips (fst (mockSearch query st))) = 1"
      by (simp add: fixed)
    ultimately show ?thesis by auto
  qed
  with spaces fixed show ?thesis by blast
qed

theorem mockSearch_empty_query_witness:
  "normalized [CHR 0x20, CHR 0x09, CHR 0x0A] = []
   \<and> fst (mockSearch [CHR 0x20, CHR 0x09, CHR 0x0A] initial_store) =
           \<lparr>items = [],
            explanation = ''Type a query and press Search. Results are mocked for demo.'',
            tips = [''Filtering matches on name or category (case-insensitive).'']\<rparr>
   \<and> normalized ''zzz'' \<noteq> []
   \<and> items (fst (mockSearch ''zzz'' initial_store)) = []
   \<and> explanation (fst (mockSearch ''zzz'' initial_store))
       \<noteq> explanation (fst (mockSearch [CHR 0x20, CHR 0x09, CHR 0x0A] initial_store))
   \<and> tips (fst (mockSearch ''zzz'' initial_store))
       \<noteq> tips (fst (mockSearch [CHR 0x20, CHR 0x09, CHR 0x0A] initial_store))"
proof -
  have q: "normalized [CHR 0x20, CHR 0x09, CHR 0x0A] = []" by code_simp
  have o: "normalized ''zzz'' \<noteq> []" by code_simp
  have m: "MOCK_DATA_ref < length initial_store"
    by (simp add: initial_store_def MOCK_DATA_ref_def)
  have z: "items (fst (mockSearch ''zzz'' initial_store)) = []" by code_simp
  note t = mockSearch_empty_query [OF q, of initial_store]
  from t have fixed: "fst (mockSearch [CHR 0x20, CHR 0x09, CHR 0x0A] initial_store) =
           \<lparr>items = [],
            explanation = ''Type a query and press Search. Results are mocked for demo.'',
            tips = [''Filtering matches on name or category (case-insensitive).'']\<rparr>"
    by (elim conjE)
  from t o m have d1: "explanation (fst (mockSearch ''zzz'' initial_store))
       \<noteq> explanation (fst (mockSearch [CHR 0x20, CHR 0x09, CHR 0x0A] initial_store))"
    by blast
  from t o m have d2: "tips (fst (mockSearch ''zzz'' initial_store))
       \<noteq> tips (fst (mockSearch [CHR 0x20, CHR 0x09, CHR 0x0A] initial_store))"
    by blast
  from q fixed o z d1 d2 show ?thesis by (intro conjI)
qed


section \<open>Purity\<close>

lemma keeps_refl: "keeps st st"
  by (simp add: keeps_def)

lemma keeps_length: "keeps st st' \<Longrightarrow> length (string_arrays st) \<le> length (string_arrays st')"
proof -
  assume "keeps st st'"
  then have "take (length (string_arrays st)) (string_arrays st') = string_arrays st"
    by (simp add: keeps_def)
  then have "length (take (length (string_arrays st)) (string_arrays st')) = length (string_arrays st)"
    by simp
  then show ?thesis by simp
qed

lemma keeps_nth:
  assumes "keeps st st'" and "i < length (string_arrays st)"
  shows "string_arrays st' ! i = string_arrays st ! i"
proof -
  from assms(1) have t: "take (length (string_arrays st)) (string_arrays st') = string_arrays st"
    by (simp add: keeps_def)
  have "take (length (string_arrays st)) (string_arrays st') ! i = string_arrays st' ! i"
    using assms(2) by simp
  with t show ?thesis by simp
qed

lemma keeps_trans:
  assumes "keeps a b" and "keeps b c"
  shows "keeps a c"
proof -
  from assms have rows: "row_arrays c = row_arrays a"
    by (simp add: keeps_def)
  from assms(1) have ab: "take (length (string_arrays a)) (string_arrays b) = string_arrays a"
    by (simp add: keeps_def)
  from assms(2) have bc: "take (length (string_arrays b)) (string_arrays c) = string_arrays b"
    by (simp add: keeps_def)
  have le: "length (string_arrays a) \<le> length (string_arrays b)"
    using assms(1) by (rule keeps_length)
  have "take (length (string_arrays a)) (string_arrays c)
      = take (length (string_arrays a)) (take (length (string_arrays b)) (string_arrays c))"
    using le by (simp add: min_absorb1)
  also have "\<dots> = string_arrays a"
    by (simp only: bc ab)
  finally show ?thesis
    using rows by (simp add: keeps_def)
qed

lemma new_strings_keeps: "keeps st (snd (new_strings xs st))"
  by (simp add: new_strings_def keeps_def)

lemma new_strings_ref:
  "string_arrays (snd (new_strings xs st)) ! fst (new_strings xs st) = xs"
  by (simp add: new_strings_def)

lemma row_line_st_eq:
  "fst (row_line_st cols r st) = row_line (string_arrays st ! cols) r
   \<and> keeps st (snd (row_line_st cols r st))"
proof (cases "map_result (cell r) (string_arrays st ! cols)")
  case (Inl e)
  then show ?thesis by (simp add: row_line_st_def row_line_def keeps_refl)
next
  case (Inr cells)
  then show ?thesis
    using new_strings_keeps [of st cells] new_strings_ref [of cells st]
    by (simp add: row_line_st_def row_line_def split_beta)
qed

lemma lines_st_eq:
  "cols < length (string_arrays st) \<Longrightarrow>
     fst (lines_st cols rs st) = map_result (row_line (string_arrays st ! cols)) rs
     \<and> keeps st (snd (lines_st cols rs st))"
proof (induction rs arbitrary: st)
  case Nil
  then show ?case by (simp add: keeps_refl)
next
  case (Cons r rs)
  let ?st1 = "snd (row_line_st cols r st)"
  from row_line_st_eq [of cols r st]
  have line: "fst (row_line_st cols r st) = row_line (string_arrays st ! cols) r"
    and k1: "keeps st ?st1"
    by simp_all
  show ?case
  proof (cases "row_line (string_arrays st ! cols) r")
    case (Inl e)
    with line k1 show ?thesis
      by (cases "row_line_st cols r st") simp
  next
    case (Inr l)
    from k1 Cons.prems have cols1: "cols < length (string_arrays ?st1)"
      using keeps_length [of st ?st1] by simp
    from k1 Cons.prems have same: "string_arrays ?st1 ! cols = string_arrays st ! cols"
      by (rule keeps_nth)
    from Cons.IH [OF cols1]
    have rest: "fst (lines_st cols rs ?st1) = map_result (row_line (string_arrays st ! cols)) rs"
      and k2: "keeps ?st1 (snd (lines_st cols rs ?st1))"
      by (simp_all add: same)
    from k1 k2 have k: "keeps st (snd (lines_st cols rs ?st1))"
      by (rule keeps_trans)
    obtain res st2 where l2: "lines_st cols rs ?st1 = (res, st2)"
      by (cases "lines_st cols rs ?st1")
    obtain res1 st1 where l1: "row_line_st cols r st = (res1, st1)"
      by (cases "row_line_st cols r st")
    from l1 line Inr have res1: "res1 = Inr l" by simp
    from l1 have st1: "st1 = ?st1" by simp
    from l2 rest have res: "res = map_result (row_line (string_arrays st ! cols)) rs" by simp
    from l2 k have k': "keeps st st2" by simp
    show ?thesis
      using Inr k' l2
      by (cases res) (simp_all add: l1 res1 st1 [symmetric] res [symmetric])
  qed
qed

lemma resolve_cols_st_eq:
  assumes "case columns of None \<Rightarrow> True | Some a \<Rightarrow> a < length (string_arrays st)"
  shows "(case fst (resolve_cols_st rows columns st) of
            Inl e \<Rightarrow> resolve_cols (row_arrays st ! rows) (map_option (\<lambda>a. string_arrays st ! a) columns) = Inl e
          | Inr a \<Rightarrow> a < length (string_arrays (snd (resolve_cols_st rows columns st)))
              \<and> resolve_cols (row_arrays st ! rows) (map_option (\<lambda>a. string_arrays st ! a) columns)
                  = Inr (string_arrays (snd (resolve_cols_st rows columns st)) ! a))
         \<and> keeps st (snd (resolve_cols_st rows columns st))"
proof (cases "case columns of None \<Rightarrow> False | Some a \<Rightarrow> length (string_arrays st ! a) \<noteq> 0")
  case True
  then obtain a where a: "columns = Some a" and ne: "length (string_arrays st ! a) \<noteq> 0"
    by (cases columns) simp_all
  from a assms have "a < length (string_arrays st)" by simp
  with a ne show ?thesis
    by (simp add: resolve_cols_st_def resolve_cols_def keeps_refl)
next
  case False
  then have given: "\<not> (case map_option (\<lambda>a. string_arrays st ! a) columns of
      None \<Rightarrow> False | Some cs \<Rightarrow> length cs \<noteq> 0)"
    by (cases columns) simp_all
  show ?thesis
  proof (cases "length (row_arrays st ! rows) \<noteq> 0")
    case rows: True
    show ?thesis
    proof (cases "Object_keys (array_get (row_arrays st ! rows) 0)")
      case (Inl e)
      with False given rows show ?thesis
        by (simp add: resolve_cols_st_def resolve_cols_def keeps_refl)
    next
      case (Inr ks)
      with False given rows show ?thesis
        using new_strings_keeps [of st ks]
        by (simp add: resolve_cols_st_def resolve_cols_def split_beta)
          (simp add: new_strings_def)
    qed
  next
    case rows: False
    with False given show ?thesis
      using new_strings_keeps [of st "[]"]
      by (simp add: resolve_cols_st_def resolve_cols_def split_beta)
        (simp add: new_strings_def)
  qed
qed

lemma toCSV_st_eq:
  assumes "case columns of None \<Rightarrow> True | Some a \<Rightarrow> a < length (string_arrays st)"
  shows "fst (toCSV_st rows columns st)
           = toCSV (row_arrays st ! rows) (map_option (\<lambda>a. string_arrays st ! a) columns)
         \<and> keeps st (snd (toCSV_st rows columns st))"
proof -
  let ?rows = "row_arrays st ! rows"
  let ?columns = "map_option (\<lambda>a. string_arrays st ! a) columns"
  obtain res st1 where r: "resolve_cols_st rows columns st = (res, st1)"
    by (cases "resolve_cols_st rows columns st")
  from resolve_cols_st_eq [OF assms, of rows, unfolded r fst_conv snd_conv]
  have res: "case res of
            Inl e \<Rightarrow> resolve_cols ?rows ?columns = Inl e
          | Inr a \<Rightarrow> a < length (string_arrays st1)
              \<and> resolve_cols ?rows ?columns = Inr (string_arrays st1 ! a)"
    and k1: "keeps st st1"
    by simp_all
  show ?thesis
  proof (cases res)
    case (Inl e)
    with res k1 show ?thesis
      by (simp add: toCSV_st_def toCSV_def r)
  next
    case (Inr a)
    with res have a: "a < length (string_arrays st1)"
      and cols: "resolve_cols ?rows ?columns = Inr (string_arrays st1 ! a)"
      by simp_all
    from k1 have rows1: "row_arrays st1 = row_arrays st"
      by (simp add: keeps_def)
    obtain ls st2 where l: "lines_st a ?rows st1 = (ls, st2)"
      by (cases "lines_st a ?rows st1")
    from lines_st_eq [OF a, of ?rows]
    have ls: "ls = map_result (row_line (string_arrays st1 ! a)) ?rows"
      and k2: "keeps st1 st2"
      by (simp_all add: l)
    from k1 k2 have k: "keeps st st2" by (rule keeps_trans)
    show ?thesis
    proof (cases ls)
      case e: (Inl e)
      with ls [symmetric] k show ?thesis
        by (simp add: toCSV_st_def toCSV_def r Inr cols rows1 l)
    next
      case lines: (Inr lines)
      let ?st3 = "snd (new_strings lines st2)"
      let ?all = "join (string_arrays st1 ! a) '','' # lines"
      have k3: "keeps st2 ?st3" by (rule new_strings_keeps)
      have k4: "keeps ?st3 (snd (new_strings ?all ?st3))" by (rule new_strings_keeps)
      from k k3 have "keeps st ?st3" by (rule keeps_trans)
      then have k': "keeps st (snd (new_strings ?all ?st3))"
        using k4 by (rule keeps_trans)
      from lines ls [symmetric] k' show ?thesis
        using new_strings_ref [of lines st2] new_strings_ref [of ?all ?st3]
        by (simp add: toCSV_st_def toCSV_def r Inr cols rows1 l split_beta Let_def)
    qed
  qed
qed

text \<open>
  C9. Two searches with the same query on stores that hold the same record collection
  return equal results, and so does a second search on the store the first one left.
  A search changes no array that existed before it: the store it returns begins with the
  old store, so the record collection is as it was (the array that is sorted in place is
  the one \<open>filter\<close> allocated). \<open>toCSV\<close>, run on a store of arrays, returns what it
  returns as a function of the contents of its two arguments, so two invocations on
  stores where \<open>rows\<close> and \<open>columns\<close> have equal contents agree (in the string returned or
  in the error thrown), as does a second invocation on the store the first one left; it
  leaves every array of rows as it was, and every array of strings that existed before
  the call, the columns among them: it only allocates new arrays.
\<close>

theorem search_and_toCSV_pure:
  assumes "MOCK_DATA_ref < length st"
    and "MOCK_DATA_ref < length st'"
    and "st' ! MOCK_DATA_ref = st ! MOCK_DATA_ref"
    and "case columns of None \<Rightarrow> True | Some a \<Rightarrow> a < length (string_arrays cs)"
    and "case columns of None \<Rightarrow> True | Some a \<Rightarrow> a < length (string_arrays cs')"
    and "row_arrays cs' ! rows = row_arrays cs ! rows"
    and "map_option (\<lambda>a. string_arrays cs' ! a) columns = map_option (\<lambda>a. string_arrays cs ! a) columns"
  shows "fst (mockSearch query st') = fst (mockSearch query st)
       \<and> fst (mockSearch query (snd (mockSearch query st))) = fst (mockSearch query st)
       \<and> take (length st) (snd (mockSearch query st)) = st
       \<and> snd (mockSearch query st) ! MOCK_DATA_ref = st ! MOCK_DATA_ref
       \<and> fst (toCSV_st rows columns cs)
           = toCSV (row_arrays cs ! rows) (map_option (\<lambda>a. string_arrays cs ! a) columns)
       \<and> fst (toCSV_st rows columns cs') = fst (toCSV_st rows columns cs)
       \<and> fst (toCSV_st rows columns (snd (toCSV_st rows columns cs))) = fst (toCSV_st rows columns cs)
       \<and> row_arrays (snd (toCSV_st rows columns cs)) = row_arrays cs
       \<and> take (length (string_arrays cs)) (string_arrays (snd (toCSV_st rows columns cs)))
           = string_arrays cs"
proof -
  have dep: "fst (mockSearch query s') = fst (mockSearch query s)"
    if "MOCK_DATA_ref < length s" and "MOCK_DATA_ref < length s'"
      and "s' ! MOCK_DATA_ref = s ! MOCK_DATA_ref" for s s'
    using that by (cases "normalized query = []")
      (simp_all add: mockSearch_empty mockSearch_general)
  have kept: "take (length st) (snd (mockSearch query st)) = st"
    using assms(1) by (cases "normalized query = []")
      (simp_all add: mockSearch_empty mockSearch_general)
  have same: "snd (mockSearch query st) ! MOCK_DATA_ref = st ! MOCK_DATA_ref"
    using assms(1) by (cases "normalized query = []")
      (simp_all add: mockSearch_empty mockSearch_general nth_append)
  have len: "MOCK_DATA_ref < length (snd (mockSearch query st))"
    using assms(1) by (cases "normalized query = []")
      (simp_all add: mockSearch_empty mockSearch_general)
  have again: "fst (mockSearch query (snd (mockSearch query st))) = fst (mockSearch query st)"
    using dep [OF assms(1) len same] .
  have other: "fst (mockSearch query st') = fst (mockSearch query st)"
    using dep [OF assms(1) assms(2) assms(3)] .
  let ?cs1 = "snd (toCSV_st rows columns cs)"
  from toCSV_st_eq [OF assms(4), of rows]
  have csv: "fst (toCSV_st rows columns cs)
           = toCSV (row_arrays cs ! rows) (map_option (\<lambda>a. string_arrays cs ! a) columns)"
    and k: "keeps cs ?cs1"
    by simp_all
  from toCSV_st_eq [OF assms(5), of rows]
  have "fst (toCSV_st rows columns cs')
           = toCSV (row_arrays cs' ! rows) (map_option (\<lambda>a. string_arrays cs' ! a) columns)"
    by simp
  with csv have csv_other: "fst (toCSV_st rows columns cs') = fst (toCSV_st rows columns cs)"
    by (simp only: assms(6) assms(7))
  from k have rows_kept: "row_arrays ?cs1 = row_arrays cs"
    and strings_kept: "take (length (string_arrays cs)) (string_arrays ?cs1) = string_arrays cs"
    by (simp_all add: keeps_def)
  have valid1: "case columns of None \<Rightarrow> True | Some a \<Rightarrow> a < length (string_arrays ?cs1)"
  proof (cases columns)
    case None
    then show ?thesis by simp
  next
    case (Some a)
    with assms(4) have "a < length (string_arrays cs)" by simp
    with keeps_length [OF k] Some show ?thesis by simp
  qed
  have columns1: "map_option (\<lambda>a. string_arrays ?cs1 ! a) columns
      = map_option (\<lambda>a. string_arrays cs ! a) columns"
  proof (cases columns)
    case None
    then show ?thesis by simp
  next
    case (Some a)
    with assms(4) have "a < length (string_arrays cs)" by simp
    with k have "string_arrays ?cs1 ! a = string_arrays cs ! a" by (rule keeps_nth)
    with Some show ?thesis by simp
  qed
  from toCSV_st_eq [OF valid1, of rows]
  have "fst (toCSV_st rows columns ?cs1)
           = toCSV (row_arrays ?cs1 ! rows) (map_option (\<lambda>a. string_arrays ?cs1 ! a) columns)"
    by simp
  with csv have csv_again: "fst (toCSV_st rows columns ?cs1) = fst (toCSV_st rows columns cs)"
    by (simp only: rows_kept columns1)
  from other again kept same csv csv_other csv_again rows_kept strings_kept show ?thesis
    by (intro conjI)
qed

theorem search_and_toCSV_pure_witness:
  "MOCK_DATA_ref < length initial_store
   \<and> MOCK_DATA_ref < length [MOCK_DATA, []]
   \<and> [MOCK_DATA, []] ! MOCK_DATA_ref = initial_store ! MOCK_DATA_ref
   \<and> fst (mockSearch ''fin'' [MOCK_DATA, []]) = fst (mockSearch ''fin'' initial_store)
   \<and> fst (mockSearch ''fin'' (snd (mockSearch ''fin'' initial_store))) = fst (mockSearch ''fin'' initial_store)
   \<and> take (length initial_store) (snd (mockSearch ''fin'' initial_store)) = initial_store
   \<and> snd (mockSearch ''fin'' initial_store) ! MOCK_DATA_ref = initial_store ! MOCK_DATA_ref
   \<and> fst (toCSV_st 0 (Some 0)
        \<lparr>row_arrays = [[object_literal [(''a'', JNum 1)]]], string_arrays = [[''a'']]\<rparr>)
       = Inr (''a'' @ CRLF @ ''1'')
   \<and> fst (toCSV_st 0 (Some 0)
        \<lparr>row_arrays = [[object_literal [(''a'', JNum 1)]], []], string_arrays = [[''a''], [''x'']]\<rparr>)
       = fst (toCSV_st 0 (Some 0)
        \<lparr>row_arrays = [[object_literal [(''a'', JNum 1)]]], string_arrays = [[''a'']]\<rparr>)
   \<and> row_arrays (snd (toCSV_st 0 (Some 0)
        \<lparr>row_arrays = [[object_literal [(''a'', JNum 1)]]], string_arrays = [[''a'']]\<rparr>))
       = [[object_literal [(''a'', JNum 1)]]]
   \<and> take 1 (string_arrays (snd (toCSV_st 0 (Some 0)
        \<lparr>row_arrays = [[object_literal [(''a'', JNum 1)]]], string_arrays = [[''a'']]\<rparr>)))
       = [[''a'']]
   \<and> length (string_arrays (snd (toCSV_st 0 (Some 0)
        \<lparr>row_arrays = [[object_literal [(''a'', JNum 1)]]], string_arrays = [[''a'']]\<rparr>))) = 4"
proof -
  let ?cs = "\<lparr>row_arrays = [[object_literal [(''a'', JNum 1)]]], string_arrays = [[''a'']]\<rparr>"
  let ?cs' = "\<lparr>row_arrays = [[object_literal [(''a'', JNum 1)]], []], string_arrays = [[''a''], [''x'']]\<rparr>"
  have m: "MOCK_DATA_ref < length initial_store"
    by (simp add: initial_store_def MOCK_DATA_ref_def)
  have m': "MOCK_DATA_ref < length [MOCK_DATA, []]"
    by (simp add: MOCK_DATA_ref_def)
  have eq: "[MOCK_DATA, []] ! MOCK_DATA_ref = initial_store ! MOCK_DATA_ref"
    by (simp add: initial_store_def MOCK_DATA_ref_def)
  have c: "case Some (0::nat) of None \<Rightarrow> True | Some a \<Rightarrow> a < length (string_arrays ?cs)"
    by simp
  have c': "case Some (0::nat) of None \<Rightarrow> True | Some a \<Rightarrow> a < length (string_arrays ?cs')"
    by simp
  have r: "row_arrays ?cs' ! 0 = row_arrays ?cs ! 0"
    by simp
  have s: "map_option (\<lambda>a. string_arrays ?cs' ! a) (Some 0) = map_option (\<lambda>a. string_arrays ?cs ! a) (Some 0)"
    by simp
  note t = search_and_toCSV_pure [where query = "''fin''", OF m m' eq c c' r s]
  from t have s1: "fst (mockSearch ''fin'' [MOCK_DATA, []]) = fst (mockSearch ''fin'' initial_store)"
    by (elim conjE)
  from t have s2: "fst (mockSearch ''fin'' (snd (mockSearch ''fin'' initial_store))) = fst (mockSearch ''fin'' initial_store)"
    by (elim conjE)
  from t have s3: "take (length initial_store) (snd (mockSearch ''fin'' initial_store)) = initial_store"
    by (elim conjE)
  from t have s4: "snd (mockSearch ''fin'' initial_store) ! MOCK_DATA_ref = initial_store ! MOCK_DATA_ref"
    by (elim conjE)
  have out: "fst (toCSV_st 0 (Some 0) ?cs) = Inr (''a'' @ CRLF @ ''1'')"
    by code_simp
  from t have other: "fst (toCSV_st 0 (Some 0) ?cs') = fst (toCSV_st 0 (Some 0) ?cs)"
    by (elim conjE)
  from t have "row_arrays (snd (toCSV_st 0 (Some 0) ?cs)) = row_arrays ?cs"
    by (elim conjE)
  then have rows: "row_arrays (snd (toCSV_st 0 (Some 0) ?cs)) = [[object_literal [(''a'', JNum 1)]]]"
    by simp
  from t have "take (length (string_arrays ?cs)) (string_arrays (snd (toCSV_st 0 (Some 0) ?cs)))
      = string_arrays ?cs"
    by (elim conjE)
  then have strings: "take 1 (string_arrays (snd (toCSV_st 0 (Some 0) ?cs))) = [[''a'']]"
    by simp
  have new: "length (string_arrays (snd (toCSV_st 0 (Some 0) ?cs))) = 4"
    by code_simp
  from m m' eq s1 s2 s3 s4 out other rows strings new show ?thesis
    by (intro conjI)
qed

section \<open>Totality\<close>

lemma escapeCSVValue_returns_iff: "(\<exists>t. escapeCSVValue v = Inr t) \<longleftrightarrow> writable (Inr v)"
proof (cases v)
  case (JOther conversion)
  then show ?thesis
    by (cases conversion) (simp_all add: escapeCSVValue_def writable_def Let_def)
qed (simp_all add: escapeCSVValue_def writable_def Let_def)

lemma cell_returns_iff: "(\<exists>t. cell r c = Inr t) \<longleftrightarrow> writable (get_prop r c)"
proof (cases "get_prop r c")
  case (Inl e)
  then show ?thesis by (simp add: cell_def writable_def)
next
  case (Inr v)
  then show ?thesis
    using escapeCSVValue_returns_iff [of v] by (simp add: cell_def)
qed

lemma row_line_returns_iff:
  "(\<exists>l. row_line cols r = Inr l) \<longleftrightarrow> (\<forall>c\<in>set cols. writable (get_prop r c))"
proof -
  have "(\<exists>l. row_line cols r = Inr l) \<longleftrightarrow> (\<exists>cells. map_result (cell r) cols = Inr cells)"
    by (auto simp: row_line_Inr_iff)
  also have "\<dots> \<longleftrightarrow> (\<forall>c\<in>set cols. \<exists>t. cell r c = Inr t)"
    by (rule map_result_returns_iff)
  finally show ?thesis
    by (simp add: cell_returns_iff)
qed

lemma toCSV_returns_iff:
  "(\<exists>out. toCSV rows columns = Inr out) \<longleftrightarrow>
     (given columns \<or> rows = [] \<or> hd rows \<noteq> Nullish)
     \<and> (\<forall>r\<in>set rows. \<forall>c\<in>set (spec_cols rows columns). writable (get_prop r c))"
proof -
  let ?cols = "spec_cols rows columns"
  have "(\<exists>out. toCSV rows columns = Inr out) \<longleftrightarrow>
      resolve_cols rows columns = Inr ?cols \<and> (\<exists>lines. map_result (row_line ?cols) rows = Inr lines)"
    by (auto simp: toCSV_Inr_iff)
  moreover have "resolve_cols rows columns = Inr ?cols \<longleftrightarrow> (\<exists>cols. resolve_cols rows columns = Inr cols)"
    using resolve_cols_Inr by blast
  moreover have "(\<exists>lines. map_result (row_line ?cols) rows = Inr lines)
      \<longleftrightarrow> (\<forall>r\<in>set rows. \<exists>l. row_line ?cols r = Inr l)"
    by (rule map_result_returns_iff)
  ultimately show ?thesis
    by (simp add: resolve_cols_returns_iff row_line_returns_iff)
qed

lemma writable_undefined: "writable (Inr JUndefined)"
  by (simp add: writable_def)

lemma get_prop_Row:
  "get_prop (Row ps inh) c = Inr JUndefined
   \<or> get_prop (Row ps inh) c \<in> snd ` set ps \<or> get_prop (Row ps inh) c \<in> snd ` set inh"
proof (cases "map_of ps c")
  case None
  show ?thesis
  proof (cases "map_of inh c")
    case inherited_none: None
    with None show ?thesis by (simp add: get_prop_def)
  next
    case (Some p)
    then have "(c, p) \<in> set inh" by (rule map_of_SomeD)
    then have "p \<in> snd ` set inh" by force
    with None Some show ?thesis by (simp add: get_prop_def)
  qed
next
  case (Some p)
  then have "(c, p) \<in> set ps" by (rule map_of_SomeD)
  then have "p \<in> snd ` set ps" by force
  with Some show ?thesis by (simp add: get_prop_def)
qed

text \<open>
  C7, as stated, fails: a cell may hold a value whose conversion to a string throws (an
  object without \<open>toString\<close> and \<open>valueOf\<close>, as \<open>Object.create(null)\<close> is), and then
  \<open>toCSV\<close> throws a TypeError. So it does on a row that is \<open>null\<close>, with and without
  columns; and on a row with a getter that throws it throws what the getter throws.
\<close>

theorem toCSV_throws:
  "toCSV [object_literal [(''a'', JOther (Inl TypeError))]] (Some [''a'']) = Inl TypeError
   \<and> toCSV [Nullish] (Some [''a'']) = Inl TypeError
   \<and> toCSV [Nullish] None = Inl TypeError
   \<and> toCSV [Row [(''a'', Inl (Thrown ''no''))] Object_prototype] None = Inl (Thrown ''no'')"
  by code_simp

text \<open>
  C7, amended. \<open>toCSV\<close> returns a string exactly when the column list can be resolved
  (columns are given, or there is no row, or the first row is not \<open>null\<close> or
  \<open>undefined\<close>) and every cell under a column can be written (no row is \<open>null\<close> or
  \<open>undefined\<close>, reading the property does not throw, and the value read is not one
  whose conversion to a string throws); otherwise it throws. In particular it returns a
  string for every list of row objects all of whose properties can be written, whatever
  the columns: empty collections, rows lacking a key and cells that are \<open>null\<close> or
  \<open>undefined\<close> included. The search never throws on a query string (it would on a
  missing query): it returns the fixed result for a query whose normalized form is
  empty, and the ranked result otherwise.
\<close>

theorem toCSV_and_search_total:
  assumes "MOCK_DATA_ref < length st"
  shows "((\<exists>out. toCSV rows columns = Inr out) \<longleftrightarrow>
            (given columns \<or> rows = [] \<or> hd rows \<noteq> Nullish)
          \<and> (\<forall>r\<in>set rows. \<forall>c\<in>set (spec_cols rows columns). writable (get_prop r c)))
       \<and> ((\<forall>out. toCSV rows columns \<noteq> Inr out) \<longrightarrow> (\<exists>e. toCSV rows columns = Inl e))
       \<and> ((\<forall>r\<in>set rows. \<exists>ps inh. r = Row ps inh
              \<and> list_all writable (map snd ps) \<and> list_all writable (map snd inh))
            \<longrightarrow> (\<exists>out. toCSV rows columns = Inr out))
       \<and> mockSearch_call (Some query) st = Inr (mockSearch query st)
       \<and> mockSearch_call None st = Inl TypeError
       \<and> fst (mockSearch query st) =
           (if normalized query = [] then
              \<lparr>items = [],
               explanation = ''Type a query and press Search. Results are mocked for demo.'',
               tips = [''Filtering matches on name or category (case-insensitive).'']\<rparr>
            else
              \<lparr>items = ranked (normalized query) (st ! MOCK_DATA_ref),
               explanation = general_explanation (length (ranked (normalized query) (st ! MOCK_DATA_ref))) query,
               tips = general_tips query\<rparr>)"
proof -
  have iff: "(\<exists>out. toCSV rows columns = Inr out) \<longleftrightarrow>
            (given columns \<or> rows = [] \<or> hd rows \<noteq> Nullish)
          \<and> (\<forall>r\<in>set rows. \<forall>c\<in>set (spec_cols rows columns). writable (get_prop r c))"
    by (rule toCSV_returns_iff)
  have throws: "(\<forall>out. toCSV rows columns \<noteq> Inr out) \<longrightarrow> (\<exists>e. toCSV rows columns = Inl e)"
    by (cases "toCSV rows columns") simp_all
  have objects: "\<exists>out. toCSV rows columns = Inr out"
    if rows: "\<forall>r\<in>set rows. \<exists>ps inh. r = Row ps inh
              \<and> list_all writable (map snd ps) \<and> list_all writable (map snd inh)"
  proof -
    have first: "rows = [] \<or> hd rows \<noteq> Nullish"
    proof (cases rows)
      case Nil
      then show ?thesis by simp
    next
      case (Cons r rs)
      with rows show ?thesis by auto
    qed
    have "writable (get_prop r c)" if "r \<in> set rows" for r c
    proof -
      from rows that obtain ps inh where r: "r = Row ps inh"
        and own: "list_all writable (map snd ps)" and inh: "list_all writable (map snd inh)"
        by blast
      from own have own': "\<forall>p\<in>snd ` set ps. writable p"
        by (simp add: list_all_iff)
      from inh have inh': "\<forall>p\<in>snd ` set inh. writable p"
        by (simp add: list_all_iff)
      from get_prop_Row [of ps inh c] own' inh' writable_undefined show ?thesis
        unfolding r by metis
    qed
    with first show ?thesis
      unfolding toCSV_returns_iff by blast
  qed
  then have objects': "(\<forall>r\<in>set rows. \<exists>ps inh. r = Row ps inh
              \<and> list_all writable (map snd ps) \<and> list_all writable (map snd inh))
            \<longrightarrow> (\<exists>out. toCSV rows columns = Inr out)"
    by (rule impI)
  have call: "mockSearch_call (Some query) st = Inr (mockSearch query st)"
    by (simp add: mockSearch_call_def)
  have missing: "mockSearch_call None st = Inl TypeError"
    by (simp add: mockSearch_call_def)
  have result: "fst (mockSearch query st) =
           (if normalized query = [] then
              \<lparr>items = [],
               explanation = ''Type a query and press Search. Results are mocked for demo.'',
               tips = [''Filtering matches on name or category (case-insensitive).'']\<rparr>
            else
              \<lparr>items = ranked (normalized query) (st ! MOCK_DATA_ref),
               explanation = general_explanation (length (ranked (normalized query) (st ! MOCK_DATA_ref))) query,
               tips = general_tips query\<rparr>)"
    using assms by (simp add: mockSearch_empty mockSearch_general)
  from iff throws objects' call missing result show ?thesis
    by (intro conjI)
qed

theorem toCSV_and_search_total_witness:
  "MOCK_DATA_ref < length initial_store
   \<and> list_all writable (map snd Object_prototype)
   \<and> toCSV [object_literal [(''a'', JNull), (''b'', JNum 3)], object_literal []] (Some [''b'', ''a'', ''c''])
       = Inr (''b,a,c'' @ CRLF @ ''3,,'' @ CRLF @ '',,'')
   \<and> mockSearch_call (Some [CHR 0x00, CHR 0xE9]) initial_store
       = Inr (mockSearch [CHR 0x00, CHR 0xE9] initial_store)
   \<and> items (fst (mockSearch [CHR 0x00, CHR 0xE9] initial_store)) = []"
proof -
  let ?rows = "[object_literal [(''a'', JNull), (''b'', JNum 3)], object_literal []]"
  have m: "MOCK_DATA_ref < length initial_store"
    by (simp add: initial_store_def MOCK_DATA_ref_def)
  note t = toCSV_and_search_total [OF m, of ?rows "Some [''b'', ''a'', ''c'']" "[CHR 0x00, CHR 0xE9]"]
  have proto: "list_all writable (map snd Object_prototype)"
    by (simp add: Object_prototype_def native_def writable_def)
  have objects: "\<forall>r\<in>set ?rows. \<exists>ps inh. r = Row ps inh
        \<and> list_all writable (map snd ps) \<and> list_all writable (map snd inh)"
    using proto by (simp add: object_literal_def writable_def)
  from t have "(\<forall>r\<in>set ?rows. \<exists>ps inh. r = Row ps inh
        \<and> list_all writable (map snd ps) \<and> list_all writable (map snd inh))
      \<longrightarrow> (\<exists>out. toCSV ?rows (Some [''b'', ''a'', ''c'']) = Inr out)"
    by (elim conjE)
  with objects have returns: "\<exists>out. toCSV ?rows (Some [''b'', ''a'', ''c'']) = Inr out"
    by (rule rev_mp)
  then obtain out where "toCSV ?rows (Some [''b'', ''a'', ''c'']) = Inr out" ..
  moreover have "toCSV ?rows (Some [''b'', ''a'', ''c''])
      = Inr (''b,a,c'' @ CRLF @ ''3,,'' @ CRLF @ '',,'')"
    by code_simp
  ultimately have out: "toCSV ?rows (Some [''b'', ''a'', ''c''])
      = Inr (''b,a,c'' @ CRLF @ ''3,,'' @ CRLF @ '',,'')"
    by simp
  from t have call: "mockSearch_call (Some [CHR 0x00, CHR 0xE9]) initial_store
       = Inr (mockSearch [CHR 0x00, CHR 0xE9] initial_store)"
    by (elim conjE)
  have none: "items (fst (mockSearch [CHR 0x00, CHR 0xE9] initial_store)) = []"
    by code_simp
  from m proto out call none show ?thesis by (intro conjI)
qed

section \<open>The export file name\<close>













end
